theory Spec2Isabelle
  imports Main "HOL-Library.Word"
begin

unbundle bit_operations_syntax

section \<open>Display list of the VBIT teletext inserter (displaylist.c)\<close>

text \<open>
  The display list lives in a serial RAM that is reached only through addressed reads and
  writes. The RAM holds two regions: the PageArray (one \<open>NODEPTR\<close> per magazine and page,
  at byte addresses below \<open>PAGEARRAYSIZE\<close>) and, behind it, the node slots (slot \<open>i\<close> at
  byte address \<open>i * sizeof(DISPLAYNODE) + PAGEARRAYSIZE\<close>, computed in a 16-bit
  \<open>NODEPTR\<close>). The model keeps the RAM as one array of bytes with 16-bit addresses, so
  that a slot number outside the pool, whose byte address wraps around, lands on the bytes
  that the code would reach. \<open>spiram_init\<close> and \<open>SetSPIRamStatus\<close> set up the device
  and leave its contents as they are; \<open>xprintf\<close>, \<open>Dump\<close> and \<open>DumpNode\<close> only print
  and are left out.
\<close>

subsection \<open>Types and constants of displaylist.h\<close>

text \<open>
  Modelled from the spec: displaylist.h is not part of the sources. A node reference is a
  fixed-width integer index; \<open>Dump\<close> steps through the PageArray two bytes at a time and
  prints a node pointer with \<open>%04X\<close>, so \<open>NODEPTR\<close> is a 16-bit unsigned integer.
\<close>

type_synonym NODEPTR = "16 word"

definition sizeof_NODEPTR :: nat where
  "sizeof_NODEPTR = 2"

text \<open>
  Modelled from the spec: the page structure filled by the parser (page.h is not part of
  the sources). \<open>ScanPageList\<close> reads its fields \<open>mag\<close>, \<open>page\<close> and \<open>subpage\<close> and
  passes them to \<open>LinkPage\<close> as \<open>uint8_t\<close>.
\<close>

record PAGE =
  mag :: "8 word"
  page :: "8 word"
  subpage :: "8 word"

text \<open>
  Modelled from the spec: a node record has the fields \<open>pageindex\<close> (0..65535),
  \<open>subpage\<close> (\<open>SetNode\<close> copies it into a \<open>uint8_t\<close>) and \<open>next\<close> (a \<open>NODEPTR\<close>).
  The field \<open>next\<close> is named \<open>nextnode\<close> here. The record is written to the RAM as it
  lies in memory, without padding (the comment in \<open>SetNode\<close>): five bytes, in the order
  \<open>pageindex\<close>, \<open>next\<close>, \<open>subpage\<close>, the 16-bit fields with the low byte first.
\<close>

record DISPLAYNODE =
  pageindex :: "16 word"
  nextnode :: NODEPTR
  subpage :: "8 word"

definition sizeof_DISPLAYNODE :: nat where
  "sizeof_DISPLAYNODE = 5"

definition bytes_of_uint16 :: "16 word \<Rightarrow> 8 word list" where
  "bytes_of_uint16 w = [ucast w, ucast (drop_bit 8 w)]"

definition uint16_of_bytes :: "8 word \<Rightarrow> 8 word \<Rightarrow> 16 word" where
  "uint16_of_bytes lo hi = push_bit 8 (ucast hi) OR ucast lo"

definition bytes_of_DISPLAYNODE :: "DISPLAYNODE \<Rightarrow> 8 word list" where
  "bytes_of_DISPLAYNODE node =
     bytes_of_uint16 (pageindex node) @ bytes_of_uint16 (nextnode node) @ [subpage node]"

definition DISPLAYNODE_of_bytes :: "8 word list \<Rightarrow> DISPLAYNODE" where
  "DISPLAYNODE_of_bytes bs =
     \<lparr>pageindex = uint16_of_bytes (bs ! 0) (bs ! 1),
      nextnode = uint16_of_bytes (bs ! 2) (bs ! 3),
      subpage = bs ! 4\<rparr>"

text \<open>
  The remaining constants of displaylist.h are parameters of the model: the number of node
  slots \<open>MAXNODES\<close>, the two reserved subpage values \<open>NULLNODE\<close> and \<open>FREENODE\<close>, and
  the null reference \<open>NULLPTR\<close>.
\<close>

record displaylist_h =
  MAXNODES :: nat
  NULLNODE :: "8 word"
  FREENODE :: "8 word"
  NULLPTR :: NODEPTR

text \<open>
  Modelled from the spec: the PageArray holds 8 magazines by 256 pages of \<open>NODEPTR\<close>.
\<close>

definition PAGEARRAYSIZE :: nat where
  "PAGEARRAYSIZE = 8 * 256 * sizeof_NODEPTR"

subsection \<open>State: the two static variables and the serial RAM\<close>

record state =
  sFreeList :: NODEPTR
  sDisplayList :: NODEPTR
  spiram :: "16 word \<Rightarrow> 8 word"

subsection \<open>Serial RAM access\<close>

text \<open>
  Modelled from the spec: the driver of the serial RAM is not part of the sources. After
  \<open>SetSPIRamAddress\<close> has set the address, \<open>WriteSPIRam\<close> writes the bytes given to
  consecutive addresses and \<open>ReadSPIRam\<close> reads that many bytes from consecutive
  addresses. The address is a \<open>uint16_t\<close>; counting up from the last address goes on at
  address 0.
\<close>

fun WriteSPIRam :: "8 word list \<Rightarrow> 16 word \<Rightarrow> (16 word \<Rightarrow> 8 word) \<Rightarrow> (16 word \<Rightarrow> 8 word)" where
  "WriteSPIRam [] addr m = m"
| "WriteSPIRam (b # bs) addr m = WriteSPIRam bs (addr + 1) (m(addr := b))"

definition ReadSPIRam :: "nat \<Rightarrow> 16 word \<Rightarrow> (16 word \<Rightarrow> 8 word) \<Rightarrow> 8 word list" where
  "ReadSPIRam n addr m = map (\<lambda>k. m (addr + of_nat k)) [0..<n]"

definition SetNodePtr :: "NODEPTR \<Rightarrow> 16 word \<Rightarrow> state \<Rightarrow> state" where
  "SetNodePtr nodeptr addr s =
     s\<lparr>spiram := WriteSPIRam (bytes_of_uint16 nodeptr) addr (spiram s)\<rparr>"

definition GetNodePtr :: "16 word \<Rightarrow> state \<Rightarrow> NODEPTR" where
  "GetNodePtr addr s =
     (let bs = ReadSPIRam sizeof_NODEPTR addr (spiram s)
      in uint16_of_bytes (bs ! 0) (bs ! 1))"

text \<open>
  \<open>SetNode\<close> and \<open>GetNode\<close> compute the byte address of slot \<open>i\<close> in the 16-bit
  variable \<open>i\<close> itself: \<open>i=i*sizeof(DISPLAYNODE)+PAGEARRAYSIZE\<close>.
\<close>

definition slot_address :: "NODEPTR \<Rightarrow> 16 word" where
  "slot_address i = i * of_nat sizeof_DISPLAYNODE + of_nat PAGEARRAYSIZE"

definition SetNode :: "DISPLAYNODE \<Rightarrow> NODEPTR \<Rightarrow> state \<Rightarrow> state" where
  "SetNode node i s =
     s\<lparr>spiram := WriteSPIRam (bytes_of_DISPLAYNODE node) (slot_address i) (spiram s)\<rparr>"

definition GetNode :: "NODEPTR \<Rightarrow> state \<Rightarrow> DISPLAYNODE" where
  "GetNode i s = DISPLAYNODE_of_bytes (ReadSPIRam sizeof_DISPLAYNODE (slot_address i) (spiram s))"

subsection \<open>The free list\<close>

text \<open>
  \<open>NewNode\<close> returns only the node pointer. The error branch prints a message and changes
  nothing.
\<close>

definition NewNode :: "displaylist_h \<Rightarrow> state \<Rightarrow> NODEPTR \<times> state" where
  "NewNode h s =
     (let ix = sFreeList s;
          node = GetNode (sFreeList s) s
      in if DISPLAYNODE.subpage node = NULLNODE h
         then (ix, s)
         else (ix, s\<lparr>sFreeList := nextnode node\<rparr>))"

definition ReturnToFreeList :: "displaylist_h \<Rightarrow> NODEPTR \<Rightarrow> state \<Rightarrow> state" where
  "ReturnToFreeList h i s =
     (let node = \<lparr>pageindex = 0, nextnode = sFreeList s, subpage = FREENODE h\<rparr>
      in (SetNode node i s)\<lparr>sFreeList := i\<rparr>)"

text \<open>
  The first loop of \<open>MakeFreeList\<close>, \<open>for (i=MAXNODES-1;i>=0;i--) ReturnToFreeList(i)\<close>:
  \<open>free_loop h n\<close> runs the iterations \<open>i = n - 1\<close> down to \<open>i = 0\<close>. The counter is an
  \<open>int\<close> of 16 bits on this target, so the model follows the code for
  \<open>MAXNODES \<le> 32768\<close>.
\<close>

fun free_loop :: "displaylist_h \<Rightarrow> nat \<Rightarrow> state \<Rightarrow> state" where
  "free_loop h 0 s = s"
| "free_loop h (Suc i) s = free_loop h i (ReturnToFreeList h (of_nat i) s)"

text \<open>
  The second loop, \<open>for (i=0;i<PAGEARRAYSIZE;i+=sizeof(NODEPTR)) SetNodePtr(NULLPTR, i)\<close>.
\<close>

function clear_loop :: "displaylist_h \<Rightarrow> nat \<Rightarrow> state \<Rightarrow> state" where
  "clear_loop h i s =
     (if i < PAGEARRAYSIZE
      then clear_loop h (i + sizeof_NODEPTR) (SetNodePtr (NULLPTR h) (of_nat i) s)
      else s)"
  by pat_completeness auto
termination
  by (relation "measure (\<lambda>(h, i, s). PAGEARRAYSIZE - i)") (auto simp: sizeof_NODEPTR_def)

definition MakeFreeList :: "displaylist_h \<Rightarrow> state \<Rightarrow> state" where
  "MakeFreeList h s =
     (let s1 = s\<lparr>sFreeList := 0\<rparr>;
          node = \<lparr>pageindex = 0, nextnode = 0, subpage = NULLNODE h\<rparr>;
          s2 = SetNode node 0 s1;
          s3 = free_loop h (MAXNODES h) s2
      in clear_loop h 0 s3)"

subsection \<open>Inserting a page\<close>

text \<open>
  The cell of a magazine and page in the PageArray, as \<open>LinkPage\<close> computes it:
  \<open>mag=(mag-1) & 0x07; cellAddress=((mag<<8)+page)*sizeof(NODEPTR)\<close>.
\<close>

definition cellAddress :: "8 word \<Rightarrow> 8 word \<Rightarrow> 16 word" where
  "cellAddress mg pg =
     (let mg' = (mg - 1) AND 0x07
      in (push_bit 8 (ucast mg') + ucast pg) * of_nat sizeof_NODEPTR)"

text \<open>
  The condition of \<open>LinkPage\<close> is \<open>np==NULLPTR || true\<close>; the other branch only prints.
\<close>

definition LinkPage :: "displaylist_h \<Rightarrow> 8 word \<Rightarrow> 8 word \<Rightarrow> 8 word \<Rightarrow> 16 word \<Rightarrow> state \<Rightarrow> state" where
  "LinkPage h mg pg sp ix s =
     (let np = GetNodePtr (cellAddress mg pg) s
      in if np = NULLPTR h \<or> True
         then (let (newnodeptr, s1) = NewNode h s;
                   s2 = SetNodePtr newnodeptr (cellAddress mg pg) s1;
                   node = \<lparr>pageindex = ix, nextnode = NULLPTR h, subpage = sp\<rparr>
               in SetNode node newnodeptr s2)
         else s)"

text \<open>
  The directory lookup of the transmission path: the node pointer stored in the cell of a
  magazine and page (\<open>GetNodePtr\<close> applied to the cell address).
\<close>

definition Lookup :: "8 word \<Rightarrow> 8 word \<Rightarrow> state \<Rightarrow> NODEPTR" where
  "Lookup mg pg s = GetNodePtr (cellAddress mg pg) s"

subsection \<open>Building the display list from pages.idx\<close>

text \<open>
  Modelled from the spec: the index record of pages.idx (its declaration is not part of the
  sources): a 32-bit seek offset into pages.all and a 16-bit page size.
\<close>

record PAGEINDEXRECORD =
  seekptr :: "32 word"
  pagesize :: "16 word"

text \<open>
  The two collaborators of \<open>ScanPageList\<close> that are not part of the sources are
  parameters of the model.
  \<^item> \<open>f_gets\<close> on pages.all: a line reader maps a file position to the line read there
    (\<open>None\<close> is the null pointer that \<open>f_gets\<close> returns at the end of the file) and the
    position after it.
  \<^item> \<open>ParseLine\<close>: maps the page structure and the line to the updated page structure.
\<close>

type_synonym line_reader = "nat \<Rightarrow> string option \<times> nat"

type_synonym line_parser = "PAGE \<Rightarrow> string option \<Rightarrow> PAGE"

text \<open>
  The files of the card: \<open>None\<close> is a file that \<open>f_open\<close> cannot open. pages.idx is the
  list of its records, pages.all is given by its line reader.
\<close>

record files =
  pages_idx :: "PAGEINDEXRECORD list option"
  pages_all :: "line_reader option"

text \<open>
  The header loop, \<open>while (p->mag==9) { str=f_gets(...); ParseLine(p,str); }\<close>. It may
  run forever, so its result is an option: \<open>None\<close> is a loop that never ends. The result
  holds the page structure and the file position reached.
\<close>

partial_function (option) header_loop ::
  "line_parser \<Rightarrow> line_reader \<Rightarrow> nat \<Rightarrow> PAGE \<Rightarrow> (PAGE \<times> nat) option" where
  "header_loop ParseLine f_gets pos p =
     (if mag p = 9
      then header_loop ParseLine f_gets (snd (f_gets pos)) (ParseLine p (fst (f_gets pos)))
      else Some (p, pos))"

text \<open>
  The loop over the records of pages.idx. The page structure is a local variable of
  \<open>ScanPageList\<close> and keeps its fields from one record to the next; \<open>ix\<close> is a
  \<open>uint16_t\<close>.
\<close>

fun scan_loop ::
  "line_parser \<Rightarrow> line_reader \<Rightarrow> displaylist_h \<Rightarrow> PAGEINDEXRECORD list \<Rightarrow> 16 word \<Rightarrow> PAGE
     \<Rightarrow> state \<Rightarrow> state option" where
  "scan_loop ParseLine f_gets h [] ix p s = Some s"
| "scan_loop ParseLine f_gets h (ixRec # rest) ix p s =
     (case header_loop ParseLine f_gets (unat (seekptr ixRec)) (p\<lparr>mag := 9\<rparr>) of
        None \<Rightarrow> None
      | Some (p', pos') \<Rightarrow>
          scan_loop ParseLine f_gets h rest (ix + 1) p'
            (LinkPage h (mag p') (page p') (PAGE.subpage p') ix s))"

text \<open>
  \<open>ScanPageList\<close> returns 1 when a file cannot be opened and 0 at the end of the index.
  \<open>page0\<close> is the uninitialised local page structure.
\<close>

definition ScanPageList ::
  "line_parser \<Rightarrow> displaylist_h \<Rightarrow> files \<Rightarrow> PAGE \<Rightarrow> state \<Rightarrow> (8 word \<times> state) option" where
  "ScanPageList ParseLine h fs page0 s =
     (case pages_idx fs of
        None \<Rightarrow> Some (1, s)
      | Some listFIL \<Rightarrow>
          (case pages_all fs of
             None \<Rightarrow> Some (1, s)
           | Some pagefileFIL \<Rightarrow>
               (case scan_loop ParseLine pagefileFIL h listFIL 0 page0 s of
                  None \<Rightarrow> None
                | Some s' \<Rightarrow> Some (0, s'))))"

definition InitDisplayList ::
  "line_parser \<Rightarrow> displaylist_h \<Rightarrow> files \<Rightarrow> PAGE \<Rightarrow> state \<Rightarrow> (8 word \<times> state) option" where
  "InitDisplayList ParseLine h fs page0 s =
     (let s1 = s\<lparr>sDisplayList := NULLPTR h\<rparr>;
          s2 = s1\<lparr>sFreeList := NULLPTR h\<rparr>;
          s3 = MakeFreeList h s2
      in ScanPageList ParseLine h fs page0 s3)"

subsection \<open>Notions used to state the properties\<close>

text \<open>
  The pool fits the RAM when its \<open>MAXNODES\<close> records end within the 16-bit address space
  behind the PageArray; a node pointer lies in the pool when it is the number of one of
  the \<open>MAXNODES\<close> slots.
\<close>

definition pool_fits :: "displaylist_h \<Rightarrow> bool" where
  "pool_fits h = (PAGEARRAYSIZE + MAXNODES h * sizeof_DISPLAYNODE \<le> 65536)"

definition in_pool :: "displaylist_h \<Rightarrow> NODEPTR \<Rightarrow> bool" where
  "in_pool h i = (unat i < MAXNODES h)"

text \<open>Following the \<open>next\<close> field \<open>k\<close> times from a node.\<close>

fun follow :: "state \<Rightarrow> nat \<Rightarrow> NODEPTR \<Rightarrow> NODEPTR" where
  "follow s 0 r = r"
| "follow s (Suc k) r = follow s k (nextnode (GetNode r s))"

text \<open>The test by which \<open>NewNode\<close> detects that it is out of nodes.\<close>

definition out_of_nodes :: "displaylist_h \<Rightarrow> state \<Rightarrow> bool" where
  "out_of_nodes h s = (DISPLAYNODE.subpage (GetNode (sFreeList s) s) = NULLNODE h)"

text \<open>\<open>k\<close> calls of \<open>NewNode\<close> in a row: the node pointers returned and the state reached.\<close>

fun NewNode_times :: "displaylist_h \<Rightarrow> nat \<Rightarrow> state \<Rightarrow> NODEPTR list \<times> state" where
  "NewNode_times h 0 s = ([], s)"
| "NewNode_times h (Suc k) s =
     (let (ix, s1) = NewNode h s;
          (ixs, s2) = NewNode_times h k s1
      in (ix # ixs, s2))"

text \<open>
  The page structures that \<open>ScanPageList\<close> hands to \<open>LinkPage\<close>, record by record:
  the loop of \<open>scan_loop\<close> without the insertion.
\<close>

fun scan_pages :: "line_parser \<Rightarrow> line_reader \<Rightarrow> PAGEINDEXRECORD list \<Rightarrow> PAGE \<Rightarrow> PAGE list option" where
  "scan_pages ParseLine f_gets [] p = Some []"
| "scan_pages ParseLine f_gets (ixRec # rest) p =
     (case header_loop ParseLine f_gets (unat (seekptr ixRec)) (p\<lparr>mag := 9\<rparr>) of
        None \<Rightarrow> None
      | Some (p', pos') \<Rightarrow>
          (case scan_pages ParseLine f_gets rest p' of
             None \<Rightarrow> None
           | Some ps \<Rightarrow> Some (p' # ps)))"

text \<open>The insertions of \<open>ScanPageList\<close> for a list of page structures.\<close>

fun link_pages :: "displaylist_h \<Rightarrow> PAGE list \<Rightarrow> 16 word \<Rightarrow> state \<Rightarrow> state" where
  "link_pages h [] ix s = s"
| "link_pages h (p # ps) ix s =
     link_pages h ps (ix + 1) (LinkPage h (mag p) (page p) (PAGE.subpage p) ix s)"

subsection \<open>Concrete inputs for the examples\<close>

text \<open>A pool of two nodes, and a serial RAM filled with zeros.\<close>

definition pool2 :: displaylist_h where
  "pool2 = \<lparr>MAXNODES = 2, NULLNODE = 0xFF, FREENODE = 0xFE, NULLPTR = 0xFFFF\<rparr>"

definition ram0 :: state where
  "ram0 = \<lparr>sFreeList = 0, sDisplayList = 0, spiram = (\<lambda>a. 0)\<rparr>"

text \<open>
  A line reader over the bytes of a file: a line ends behind a newline or after 79
  characters, and there is no line at the end of the file.
\<close>

definition read_line :: "string \<Rightarrow> line_reader" where
  "read_line data pos =
     (if length data \<le> pos then (None, pos)
      else (let rest = take 79 (drop pos data);
                ln = takeWhile (\<lambda>c. c \<noteq> CHR 0x0A) rest;
                n = (if length ln < length rest then Suc (length ln) else length ln)
            in (Some (take n rest), pos + n)))"

text \<open>
  A parser for the examples: a line \<open>Pmxy\<close> with a digit \<open>m\<close> from 1 to 8 sets the
  magazine to \<open>m\<close>, the page to the value of the digit \<open>x\<close> and the subpage to the
  value of the digit \<open>y\<close>; any other line, and the null pointer, leave the page
  structure as it is.
\<close>

fun digit_parser :: line_parser where
  "digit_parser p (Some (c # m # x # y # rest)) =
     (if c = CHR ''P'' \<and> 49 \<le> (of_char m :: nat) \<and> (of_char m :: nat) \<le> 56
      then p\<lparr>mag := of_nat (of_char m - 48), page := of_nat (of_char x - 48),
             PAGE.subpage := of_nat (of_char y - 48)\<rparr>
      else p)"
| "digit_parser p str = p"

definition page0 :: PAGE where
  "page0 = \<lparr>mag = 0, page = 0, PAGE.subpage = 0\<rparr>"

text \<open>
  The state after the first step of \<open>MakeFreeList\<close>: the free list points to node 0,
  which carries \<open>NULLNODE\<close>.
\<close>

definition ram_end :: state where
  "ram_end = SetNode \<lparr>pageindex = 0, nextnode = 0, subpage = NULLNODE pool2\<rparr> 0 (ram0\<lparr>sFreeList := 0\<rparr>)"

text \<open>
  The state in which \<open>InitDisplayList\<close> calls \<open>ScanPageList\<close> for this pool and RAM, and
  the states after one, two and three pages of magazine 1 have been inserted.
\<close>

definition ram_fresh :: state where
  "ram_fresh = MakeFreeList pool2 (ram0\<lparr>sDisplayList := NULLPTR pool2, sFreeList := NULLPTR pool2\<rparr>)"

definition ram_one :: state where
  "ram_one = LinkPage pool2 1 0 0 0 ram_fresh"

definition ram_two :: state where
  "ram_two = LinkPage pool2 1 1 0 1 ram_one"

definition ram_three :: state where
  "ram_three = LinkPage pool2 1 2 0 2 ram_two"

text \<open>
  After the third page the free list points to \<open>NULLPTR\<close>, a slot number outside the
  pool. The next two states insert page 255 of magazine 8 twice from there.
\<close>

definition ram_four :: state where
  "ram_four = LinkPage pool2 8 255 0 3 ram_three"

definition ram_five :: state where
  "ram_five = LinkPage pool2 8 255 0 4 ram_four"

text \<open>
  Cards for the examples. Every record of the index is five bytes of pages.all. On
  \<open>card2\<close> and \<open>card3\<close> each record is a header line; on \<open>card_late\<close> the first
  record holds no header line; on \<open>card_none\<close> no line of the file is a header line.
\<close>

definition data2 :: string where
  "data2 = ''P100'' @ [CHR 0x0A] @ ''P110'' @ [CHR 0x0A]"

definition recs2 :: "PAGEINDEXRECORD list" where
  "recs2 = [\<lparr>seekptr = 0, pagesize = 5\<rparr>, \<lparr>seekptr = 5, pagesize = 5\<rparr>]"

definition card2 :: files where
  "card2 = \<lparr>pages_idx = Some recs2, pages_all = Some (read_line data2)\<rparr>"

definition data3 :: string where
  "data3 = ''P100'' @ [CHR 0x0A] @ ''P110'' @ [CHR 0x0A] @ ''P120'' @ [CHR 0x0A]"

definition recs3 :: "PAGEINDEXRECORD list" where
  "recs3 = [\<lparr>seekptr = 0, pagesize = 5\<rparr>, \<lparr>seekptr = 5, pagesize = 5\<rparr>,
            \<lparr>seekptr = 10, pagesize = 5\<rparr>]"

definition card3 :: files where
  "card3 = \<lparr>pages_idx = Some recs3, pages_all = Some (read_line data3)\<rparr>"

definition data_late :: string where
  "data_late = ''XXXX'' @ [CHR 0x0A] @ ''P100'' @ [CHR 0x0A]"

definition card_late :: files where
  "card_late = \<lparr>pages_idx = Some recs2, pages_all = Some (read_line data_late)\<rparr>"

definition data_none :: string where
  "data_none = ''XXXX'' @ [CHR 0x0A]"

definition recs1 :: "PAGEINDEXRECORD list" where
  "recs1 = [\<lparr>seekptr = 0, pagesize = 5\<rparr>]"

definition card_none :: files where
  "card_none = \<lparr>pages_idx = Some recs1, pages_all = Some (read_line data_none)\<rparr>"

text \<open>The page structures parsed from the header lines of the cards.\<close>

definition pA :: PAGE where "pA = \<lparr>mag = 1, page = 0, PAGE.subpage = 0\<rparr>"

definition pB :: PAGE where "pB = \<lparr>mag = 1, page = 1, PAGE.subpage = 0\<rparr>"

definition pC :: PAGE where "pC = \<lparr>mag = 1, page = 2, PAGE.subpage = 0\<rparr>"

section \<open>Properties\<close>

declare clear_loop.simps [simp del]

subsection \<open>Reading and writing bytes\<close>

lemma unat_plus_16:
  fixes a :: "16 word"
  assumes "unat a + k < 65536"
  shows "unat (a + of_nat k) = unat a + k"
proof -
  have k: "unat (of_nat k :: 16 word) = k" using assms by (simp add: unat_of_nat)
  show ?thesis
    using assms k unat_add_lem [THEN iffD1, of a "of_nat k :: 16 word"] by simp
qed

lemma WriteSPIRam_other:
  "(\<forall>k<length bs. b \<noteq> addr + of_nat k) \<Longrightarrow> WriteSPIRam bs addr m b = m b"
proof (induction bs arbitrary: addr m)
  case Nil
  then show ?case by simp
next
  case (Cons x bs)
  have "\<forall>k<length bs. b \<noteq> (addr + 1) + of_nat k"
  proof (intro allI impI)
    fix k assume k: "k < length bs"
    have "b \<noteq> addr + of_nat (Suc k)" using Cons.prems [THEN spec, of "Suc k"] k by simp
    then show "b \<noteq> (addr + 1) + of_nat k" by (simp add: add.assoc)
  qed
  then have "WriteSPIRam bs (addr + 1) (m(addr := x)) b = (m(addr := x)) b"
    by (rule Cons.IH)
  moreover have "b \<noteq> addr" using Cons.prems [THEN spec, of 0] by simp
  ultimately show ?case by simp
qed

lemma WriteSPIRam_same:
  "unat addr + length bs \<le> 65536 \<Longrightarrow> k < length bs \<Longrightarrow>
   WriteSPIRam bs addr m (addr + of_nat k) = bs ! k"
proof (induction bs arbitrary: addr m k)
  case Nil
  then show ?case by simp
next
  case (Cons x bs)
  show ?case
  proof (cases k)
    case 0
    have "\<forall>j<length bs. addr \<noteq> (addr + 1) + of_nat j"
    proof (intro allI impI)
      fix j assume j: "j < length bs"
      have u: "unat (addr + of_nat (Suc j)) = unat addr + Suc j"
        using Cons.prems j by (intro unat_plus_16) simp
      have "addr + of_nat (Suc j) \<noteq> addr"
      proof
        assume "addr + of_nat (Suc j) = addr"
        then have "unat (addr + of_nat (Suc j)) = unat addr" by (simp only:)
        with u show False by simp
      qed
      then show "addr \<noteq> (addr + 1) + of_nat j" by (simp add: add.assoc)
    qed
    then have "WriteSPIRam bs (addr + 1) (m(addr := x)) addr = (m(addr := x)) addr"
      by (rule WriteSPIRam_other)
    then show ?thesis using 0 by simp
  next
    case (Suc j)
    have u: "unat (addr + 1) = unat addr + 1"
      using Cons.prems Suc unat_plus_16 [of addr 1] by simp
    have "WriteSPIRam bs (addr + 1) (m(addr := x)) ((addr + 1) + of_nat j) = bs ! j"
      using Cons.prems Suc u by (intro Cons.IH) simp_all
    then show ?thesis using Suc by (simp add: add.assoc)
  qed
qed


lemma ReadSPIRam_WriteSPIRam_same:
  assumes "unat addr + length bs \<le> 65536"
  shows "ReadSPIRam (length bs) addr (WriteSPIRam bs addr m) = bs"
proof (rule nth_equalityI)
  show "length (ReadSPIRam (length bs) addr (WriteSPIRam bs addr m)) = length bs"
    by (simp add: ReadSPIRam_def)
next
  fix k assume "k < length (ReadSPIRam (length bs) addr (WriteSPIRam bs addr m))"
  then have k: "k < length bs" by (simp add: ReadSPIRam_def)
  then show "ReadSPIRam (length bs) addr (WriteSPIRam bs addr m) ! k = bs ! k"
    using WriteSPIRam_same [OF assms k, of m] by (simp add: ReadSPIRam_def)
qed

lemma ReadSPIRam_WriteSPIRam_disjoint:
  assumes a: "unat addr + length bs \<le> 65536" and a': "unat addr' + n \<le> 65536"
    and d: "unat addr + length bs \<le> unat addr' \<or> unat addr' + n \<le> unat addr"
  shows "ReadSPIRam n addr' (WriteSPIRam bs addr m) = ReadSPIRam n addr' m"
proof -
  have "WriteSPIRam bs addr m (addr' + of_nat j) = m (addr' + of_nat j)" if j: "j < n" for j
  proof (rule WriteSPIRam_other, intro allI impI)
    fix k assume k: "k < length bs"
    have u: "unat (addr + of_nat k) = unat addr + k" using a k by (intro unat_plus_16) simp
    have u': "unat (addr' + of_nat j) = unat addr' + j" using a' j by (intro unat_plus_16) simp
    show "addr' + of_nat j \<noteq> addr + of_nat k"
    proof
      assume "addr' + of_nat j = addr + of_nat k"
      then have "unat (addr' + of_nat j) = unat (addr + of_nat k)" by (simp only:)
      then show False using u u' d j k by simp
    qed
  qed
  then show ?thesis by (simp add: ReadSPIRam_def)
qed

lemma uint16_of_bytes_of_uint16:
  "uint16_of_bytes (ucast w) (ucast (drop_bit 8 w)) = w"
  unfolding uint16_of_bytes_def
  by (rule bit_word_eqI) (auto simp add: bit_simps)

lemma DISPLAYNODE_of_bytes_of_DISPLAYNODE:
  "DISPLAYNODE_of_bytes (bytes_of_DISPLAYNODE node) = node"
  by (simp add: DISPLAYNODE_of_bytes_def bytes_of_DISPLAYNODE_def bytes_of_uint16_def
      uint16_of_bytes_of_uint16)

lemma length_bytes_of_DISPLAYNODE: "length (bytes_of_DISPLAYNODE node) = 5"
  by (simp add: bytes_of_DISPLAYNODE_def bytes_of_uint16_def)

lemma length_bytes_of_uint16: "length (bytes_of_uint16 w) = 2"
  by (simp add: bytes_of_uint16_def)

lemma unat_slot_address:
  assumes "pool_fits h" "in_pool h i"
  shows "unat (slot_address i) = 4096 + unat i * 5"
proof -
  have b: "4096 + unat i * 5 < 65536"
    using assms by (simp add: pool_fits_def in_pool_def PAGEARRAYSIZE_def sizeof_NODEPTR_def
        sizeof_DISPLAYNODE_def)
  have e: "slot_address i = of_nat (4096 + unat i * 5)"
    by (simp add: slot_address_def PAGEARRAYSIZE_def sizeof_NODEPTR_def sizeof_DISPLAYNODE_def)
  have "unat (of_nat (4096 + unat i * 5) :: 16 word) = 4096 + unat i * 5"
    unfolding unat_of_nat using b by simp
  then show ?thesis by (simp only: e)
qed

lemma slot_in_ram:
  assumes "pool_fits h" "in_pool h i"
  shows "unat (slot_address i) + 5 \<le> 65536"
  using assms unat_slot_address [OF assms]
  by (simp add: pool_fits_def in_pool_def PAGEARRAYSIZE_def sizeof_NODEPTR_def
      sizeof_DISPLAYNODE_def)


subsection \<open>Node slots and directory cells do not overlap inside the pool\<close>

lemma sFreeList_SetNode [simp]: "sFreeList (SetNode node i s) = sFreeList s"
  by (simp add: SetNode_def)

lemma sFreeList_SetNodePtr [simp]: "sFreeList (SetNodePtr v c s) = sFreeList s"
  by (simp add: SetNodePtr_def)

lemma sDisplayList_SetNode [simp]: "sDisplayList (SetNode node i s) = sDisplayList s"
  by (simp add: SetNode_def)

lemma sDisplayList_SetNodePtr [simp]: "sDisplayList (SetNodePtr v c s) = sDisplayList s"
  by (simp add: SetNodePtr_def)

lemma GetNode_sFreeList_update [simp]: "GetNode i (s\<lparr>sFreeList := x\<rparr>) = GetNode i s"
  by (simp add: GetNode_def)

lemma GetNodePtr_sFreeList_update [simp]: "GetNodePtr c (s\<lparr>sFreeList := x\<rparr>) = GetNodePtr c s"
  by (simp add: GetNodePtr_def)

lemma GetNode_SetNode_same:
  assumes "pool_fits h" "in_pool h i"
  shows "GetNode i (SetNode node i s) = node"
proof -
  have "unat (slot_address i) + length (bytes_of_DISPLAYNODE node) \<le> 65536"
    using slot_in_ram [OF assms] by (simp add: length_bytes_of_DISPLAYNODE)
  from ReadSPIRam_WriteSPIRam_same [OF this, of "spiram s"] show ?thesis
    by (simp add: GetNode_def SetNode_def sizeof_DISPLAYNODE_def length_bytes_of_DISPLAYNODE
        DISPLAYNODE_of_bytes_of_DISPLAYNODE)
qed

lemma GetNode_SetNode_other:
  assumes f: "pool_fits h" and i: "in_pool h i" and j: "in_pool h j" and ne: "i \<noteq> j"
  shows "GetNode j (SetNode node i s) = GetNode j s"
proof -
  have "unat i \<noteq> unat j" using ne by (simp add: word_unat_eq_iff)
  then have d: "unat (slot_address i) + length (bytes_of_DISPLAYNODE node) \<le> unat (slot_address j)
      \<or> unat (slot_address j) + 5 \<le> unat (slot_address i)"
    by (simp add: unat_slot_address [OF f i] unat_slot_address [OF f j]
        length_bytes_of_DISPLAYNODE) arith
  have a: "unat (slot_address i) + length (bytes_of_DISPLAYNODE node) \<le> 65536"
    using slot_in_ram [OF f i] by (simp add: length_bytes_of_DISPLAYNODE)
  from ReadSPIRam_WriteSPIRam_disjoint [OF a slot_in_ram [OF f j] d, of "spiram s"]
  show ?thesis by (simp add: GetNode_def SetNode_def sizeof_DISPLAYNODE_def)
qed

lemma GetNodePtr_SetNode:
  assumes f: "pool_fits h" and i: "in_pool h i" and c: "unat c + 2 \<le> 4096"
  shows "GetNodePtr c (SetNode node i s) = GetNodePtr c s"
proof -
  have d: "unat (slot_address i) + length (bytes_of_DISPLAYNODE node) \<le> unat c
      \<or> unat c + 2 \<le> unat (slot_address i)"
    using c by (simp add: unat_slot_address [OF f i])
  have a: "unat (slot_address i) + length (bytes_of_DISPLAYNODE node) \<le> 65536"
    using slot_in_ram [OF f i] by (simp add: length_bytes_of_DISPLAYNODE)
  have c': "unat c + 2 \<le> 65536" using c by simp
  from ReadSPIRam_WriteSPIRam_disjoint [OF a c' d, of "spiram s"]
  show ?thesis by (simp add: GetNodePtr_def SetNode_def sizeof_NODEPTR_def)
qed

lemma GetNode_SetNodePtr:
  assumes f: "pool_fits h" and j: "in_pool h j" and c: "unat c + 2 \<le> 4096"
  shows "GetNode j (SetNodePtr v c s) = GetNode j s"
proof -
  have d: "unat c + length (bytes_of_uint16 v) \<le> unat (slot_address j)
      \<or> unat (slot_address j) + 5 \<le> unat c"
    using c by (simp add: unat_slot_address [OF f j] length_bytes_of_uint16)
  have a: "unat c + length (bytes_of_uint16 v) \<le> 65536"
    using c by (simp add: length_bytes_of_uint16)
  from ReadSPIRam_WriteSPIRam_disjoint [OF a slot_in_ram [OF f j] d, of "spiram s"]
  show ?thesis by (simp add: GetNode_def SetNodePtr_def sizeof_DISPLAYNODE_def)
qed

lemma GetNodePtr_SetNodePtr_same:
  assumes "unat c + 2 \<le> 65536"
  shows "GetNodePtr c (SetNodePtr v c s) = v"
proof -
  have "unat c + length (bytes_of_uint16 v) \<le> 65536"
    using assms by (simp add: length_bytes_of_uint16)
  from ReadSPIRam_WriteSPIRam_same [OF this, of "spiram s"] show ?thesis
    by (simp add: GetNodePtr_def SetNodePtr_def sizeof_NODEPTR_def length_bytes_of_uint16)
      (simp add: bytes_of_uint16_def uint16_of_bytes_of_uint16)
qed

lemma GetNodePtr_SetNodePtr_other:
  assumes c: "unat c + 2 \<le> 65536" and c': "unat c' + 2 \<le> 65536"
    and d: "unat c + 2 \<le> unat c' \<or> unat c' + 2 \<le> unat c"
  shows "GetNodePtr c' (SetNodePtr v c s) = GetNodePtr c' s"
proof -
  have a: "unat c + length (bytes_of_uint16 v) \<le> 65536"
    using c by (simp add: length_bytes_of_uint16)
  have d': "unat c + length (bytes_of_uint16 v) \<le> unat c' \<or> unat c' + 2 \<le> unat c"
    using d by (simp add: length_bytes_of_uint16)
  from ReadSPIRam_WriteSPIRam_disjoint [OF a c' d', of "spiram s"]
  show ?thesis by (simp add: GetNodePtr_def SetNodePtr_def sizeof_NODEPTR_def)
qed


subsection \<open>Cell addresses\<close>

lemma mag_le: "unat ((mg - 1) AND (7::8 word)) \<le> 7"
  using word_and_le1 [of "mg - 1" "7::8 word"] by (simp add: word_le_nat_alt)

lemma unat_cell: "unat (cellAddress mg pg) = (unat ((mg - 1) AND 7) * 256 + unat pg) * 2"
proof -
  let ?m = "(mg - 1) AND (7::8 word)"
  have m: "unat ?m \<le> 7" by (rule mag_le)
  have p: "unat pg < 256" using unsigned_less[of pg, where 'a=nat] by simp
  have a: "unat (ucast ?m :: 16 word) = unat ?m" using m p by (simp add: unsigned_ucast_eq take_bit_nat_eq_self)
  have b: "unat (ucast pg :: 16 word) = unat pg" using m p by (simp add: unsigned_ucast_eq take_bit_nat_eq_self)
  have c: "unat (push_bit 8 (ucast ?m :: 16 word)) = unat ?m * 256"
    using m a by (simp add: push_bit_eq_mult unat_word_ariths)
  have d: "unat (push_bit 8 (ucast ?m :: 16 word) + ucast pg) = unat ?m * 256 + unat pg"
    using m p b c unat_add_lem [THEN iffD1, of "push_bit 8 (ucast ?m :: 16 word)" "ucast pg"]
    by simp
  have e: "unat ((push_bit 8 (ucast ?m :: 16 word) + ucast pg) * 2)
             = (unat ?m * 256 + unat pg) * 2"
    using m p d unat_mult_lem [THEN iffD1, of "push_bit 8 (ucast ?m :: 16 word) + ucast pg" 2]
    by simp
  show ?thesis
    using e by (simp add: cellAddress_def sizeof_NODEPTR_def Let_def)
qed

lemma cell_bound: "unat (cellAddress mg pg) + sizeof_NODEPTR \<le> PAGEARRAYSIZE"
  using mag_le[of mg] unsigned_less[of pg, where 'a=nat]
  by (simp add: unat_cell PAGEARRAYSIZE_def sizeof_NODEPTR_def)

lemma mag_in_range:
  fixes m :: "8 word"
  assumes "1 \<le> m" "m \<le> 8"
  shows "(m - 1) AND 7 = m - 1"
proof -
  have "unat m \<in> {1, 2, 3, 4, 5, 6, 7, 8}"
    using assms by (auto simp: word_le_nat_alt)
  then have "(of_nat (unat m) :: 8 word) \<in> of_nat ` {1, 2, 3, 4, 5, 6, 7, 8}"
    by (rule imageI)
  then have "m \<in> {1, 2, 3, 4, 5, 6, 7, 8}"
    by simp
  then show ?thesis by auto
qed

lemma cellAddress_inj:
  assumes "1 \<le> m1" "m1 \<le> 8" "1 \<le> m2" "m2 \<le> 8"
    and "cellAddress m1 p1 = cellAddress m2 p2"
  shows "m1 = m2 \<and> p1 = p2"
proof -
  have p: "unat p1 < 256" "unat p2 < 256"
    using unsigned_less [of p1, where 'a = nat] unsigned_less [of p2, where 'a = nat] by simp_all
  have "unat (cellAddress m1 p1) = unat (cellAddress m2 p2)" using assms(5) by simp
  then have e: "unat (m1 - 1) * 256 + unat p1 = unat (m2 - 1) * 256 + unat p2"
    unfolding unat_cell mag_in_range [OF assms(1,2)] mag_in_range [OF assms(3,4)] by simp
  have "(unat (m1 - 1) * 256 + unat p1) mod 256 = (unat (m2 - 1) * 256 + unat p2) mod 256"
    and "(unat (m1 - 1) * 256 + unat p1) div 256 = (unat (m2 - 1) * 256 + unat p2) div 256"
    using e by simp_all
  then have "unat p1 = unat p2" and "unat (m1 - 1) = unat (m2 - 1)"
    using p by simp_all
  then have "p1 = p2" and "m1 - 1 = m2 - 1"
    by (simp_all only: word_unat_eq_iff)
  then show ?thesis by simp
qed

lemma of_nat_16_inj: "i < 65536 \<Longrightarrow> j < 65536 \<Longrightarrow> (of_nat i :: 16 word) = of_nat j \<longleftrightarrow> i = j"
  by (simp add: word_of_nat_eq_iff take_bit_nat_eq_self)

lemma cell_in_directory: "unat (cellAddress mg pg) + 2 \<le> 4096"
  using cell_bound [of mg pg] by (simp add: PAGEARRAYSIZE_def sizeof_NODEPTR_def)

lemma cell_apart:
  assumes "cellAddress mg pg \<noteq> cellAddress mg' pg'"
  shows "unat (cellAddress mg pg) + 2 \<le> unat (cellAddress mg' pg')
       \<or> unat (cellAddress mg' pg') + 2 \<le> unat (cellAddress mg pg)"
proof -
  have "unat (cellAddress mg pg) \<noteq> unat (cellAddress mg' pg')"
    using assms by (simp add: word_unat_eq_iff)
  moreover obtain x where x: "unat (cellAddress mg pg) = x * 2"
    using unat_cell [of mg pg] by blast
  moreover obtain y where y: "unat (cellAddress mg' pg') = y * 2"
    using unat_cell [of mg' pg'] by blast
  ultimately have "x \<noteq> y" by auto
  then have "x * 2 + 2 \<le> y * 2 \<or> y * 2 + 2 \<le> x * 2" by arith
  then show ?thesis by (simp only: x y)
qed

lemma in_pool_of_nat:
  assumes "pool_fits h" "i < MAXNODES h"
  shows "in_pool h (of_nat i)"
proof -
  have "i < 65536"
    using assms by (simp add: pool_fits_def PAGEARRAYSIZE_def sizeof_NODEPTR_def
        sizeof_DISPLAYNODE_def)
  then have "unat (of_nat i :: 16 word) = i" by (simp add: unat_of_nat)
  then show ?thesis using assms by (simp add: in_pool_def)
qed

lemma pool_fits_bound: "pool_fits h \<Longrightarrow> MAXNODES h \<le> 12288"
  by (simp add: pool_fits_def PAGEARRAYSIZE_def sizeof_NODEPTR_def sizeof_DISPLAYNODE_def)


subsection \<open>The state after MakeFreeList\<close>

lemma spiram_SetNodePtr:
  "spiram (SetNodePtr v c s) b =
     (if b = c + 1 then ucast (drop_bit 8 v) else if b = c then ucast v else spiram s b)"
  by (simp add: SetNodePtr_def bytes_of_uint16_def)

lemma spiram_SetNode_frame:
  assumes f: "pool_fits h" and i: "in_pool h i"
    and b: "unat b < unat (slot_address i) \<or> unat (slot_address i) + 5 \<le> unat b"
  shows "spiram (SetNode node i s) b = spiram s b"
proof -
  have "WriteSPIRam (bytes_of_DISPLAYNODE node) (slot_address i) (spiram s) b = spiram s b"
  proof (rule WriteSPIRam_other, intro allI impI)
    fix k assume "k < length (bytes_of_DISPLAYNODE node)"
    then have k: "k < 5" by (simp add: length_bytes_of_DISPLAYNODE)
    have u: "unat (slot_address i + of_nat k) = unat (slot_address i) + k"
      using slot_in_ram [OF f i] k by (intro unat_plus_16) simp
    show "b \<noteq> slot_address i + of_nat k"
    proof
      assume "b = slot_address i + of_nat k"
      then have "unat b = unat (slot_address i + of_nat k)" by (simp only:)
      then show False using u b k by simp
    qed
  qed
  then show ?thesis by (simp add: SetNode_def)
qed

lemma clear_loop_sFreeList: "sFreeList (clear_loop h i s) = sFreeList s"
proof (induction h i s rule: clear_loop.induct)
  case (1 h i s)
  show ?case
    using "1.IH" by (subst clear_loop.simps) simp
qed

lemma clear_loop_frame:
  "even i \<Longrightarrow> unat b < i \<or> 4096 \<le> unat b \<Longrightarrow> spiram (clear_loop h i s) b = spiram s b"
proof (induction h i s rule: clear_loop.induct)
  case (1 h i s)
  show ?case
  proof (cases "i < PAGEARRAYSIZE")
    case True
    then have i: "i < 4096" by (simp add: PAGEARRAYSIZE_def sizeof_NODEPTR_def)
    then have i2: "i + 1 < 4096" using "1.prems"(1) by presburger
    have ui: "unat (of_nat i :: 16 word) = i" using i by (simp add: unat_of_nat)
    have ui1: "unat (of_nat i + 1 :: 16 word) = i + 1"
      using unat_plus_16 [of "of_nat i" 1] ui i by simp
    have nb: "b \<noteq> of_nat i" "b \<noteq> of_nat i + 1"
      using "1.prems"(2) ui ui1 i2 by auto
    have "spiram (clear_loop h (i + sizeof_NODEPTR) (SetNodePtr (NULLPTR h) (of_nat i) s)) b
        = spiram (SetNodePtr (NULLPTR h) (of_nat i) s) b"
      using True "1.prems" by (intro "1.IH") (auto simp: sizeof_NODEPTR_def)
    then show ?thesis using True nb
      by (subst clear_loop.simps) (simp add: spiram_SetNodePtr)
  next
    case False
    then show ?thesis by (subst clear_loop.simps) simp
  qed
qed

lemma clear_loop_written:
  "even i \<Longrightarrow> i \<le> unat b \<Longrightarrow> unat b < 4096 \<Longrightarrow>
   spiram (clear_loop h i s) b =
     (if even (unat b) then ucast (NULLPTR h) else ucast (drop_bit 8 (NULLPTR h)))"
proof (induction h i s rule: clear_loop.induct)
  case (1 h i s)
  have i: "i < 4096" using "1.prems" by simp
  then have T: "i < PAGEARRAYSIZE" by (simp add: PAGEARRAYSIZE_def sizeof_NODEPTR_def)
  have i2: "i + 1 < 4096" using "1.prems"(1) i by presburger
  have ui: "unat (of_nat i :: 16 word) = i" using i by (simp add: unat_of_nat)
  have ui1: "unat (of_nat i + 1 :: 16 word) = i + 1"
    using unat_plus_16 [of "of_nat i" 1] ui i by simp
  let ?s' = "SetNodePtr (NULLPTR h) (of_nat i) s"
  have unfold: "clear_loop h i s = clear_loop h (i + sizeof_NODEPTR) ?s'"
    using T by (subst clear_loop.simps) simp
  show ?case
  proof (cases "i + 2 \<le> unat b")
    case True
    then show ?thesis
      using "1.IH" [OF T] "1.prems" unfolding unfold by (simp add: sizeof_NODEPTR_def)
  next
    case False
    then have "unat b = i \<or> unat b = i + 1" using "1.prems" by arith
    then have b: "b = of_nat i \<or> b = of_nat i + 1"
      using ui ui1 by (metis word_unat_eq_iff)
    have "spiram (clear_loop h (i + sizeof_NODEPTR) ?s') b = spiram ?s' b"
      using False "1.prems" by (intro clear_loop_frame) (auto simp: sizeof_NODEPTR_def)
    then show ?thesis
      using b ui ui1 "1.prems"(1) unfolding unfold by (auto simp: spiram_SetNodePtr)
  qed
qed

lemma ReadSPIRam_cong:
  "(\<And>k. k < n \<Longrightarrow> m (addr + of_nat k) = m' (addr + of_nat k)) \<Longrightarrow>
   ReadSPIRam n addr m = ReadSPIRam n addr m'"
  by (simp add: ReadSPIRam_def)

lemma GetNode_cong_pool:
  assumes f: "pool_fits h" and i: "in_pool h i"
    and e: "\<And>b. 4096 \<le> unat b \<Longrightarrow> spiram s b = spiram s' b"
  shows "GetNode i s = GetNode i s'"
proof -
  have "ReadSPIRam 5 (slot_address i) (spiram s) = ReadSPIRam 5 (slot_address i) (spiram s')"
  proof (rule ReadSPIRam_cong)
    fix k :: nat assume k: "k < 5"
    have "unat (slot_address i + of_nat k) = unat (slot_address i) + k"
      using slot_in_ram [OF f i] k by (intro unat_plus_16) simp
    then have "4096 \<le> unat (slot_address i + of_nat k)"
      by (simp add: unat_slot_address [OF f i])
    then show "spiram s (slot_address i + of_nat k) = spiram s' (slot_address i + of_nat k)"
      by (rule e)
  qed
  then show ?thesis by (simp add: GetNode_def sizeof_DISPLAYNODE_def)
qed

lemma clear_loop_GetNode:
  assumes "pool_fits h'" "in_pool h' j"
  shows "GetNode j (clear_loop h 0 s) = GetNode j s"
  using assms by (rule GetNode_cong_pool) (simp add: clear_loop_frame)

lemma free_loop_sFreeList: "sFreeList (free_loop h n s) = (if n = 0 then sFreeList s else 0)"
  by (induction n arbitrary: s) (simp_all add: ReturnToFreeList_def Let_def)

lemma free_loop_GetNode_frame:
  "pool_fits h \<Longrightarrow> n \<le> j \<Longrightarrow> j < MAXNODES h \<Longrightarrow>
   GetNode (of_nat j) (free_loop h n s) = GetNode (of_nat j) s"
proof (induction n arbitrary: s)
  case 0
  then show ?case by simp
next
  case (Suc n)
  have n: "n < MAXNODES h" using Suc.prems by simp
  have ne: "(of_nat n :: 16 word) \<noteq> of_nat j"
    using Suc.prems pool_fits_bound [of h] by (simp add: of_nat_16_inj)
  have "GetNode (of_nat j) (free_loop h n (ReturnToFreeList h (of_nat n) s))
      = GetNode (of_nat j) (ReturnToFreeList h (of_nat n) s)"
    using Suc.prems by (intro Suc.IH) simp_all
  also have "\<dots> = GetNode (of_nat j) s"
    using GetNode_SetNode_other [OF Suc.prems(1) in_pool_of_nat [OF Suc.prems(1) n]
        in_pool_of_nat [OF Suc.prems(1,3)] ne]
    by (simp add: ReturnToFreeList_def Let_def)
  finally show ?case by simp
qed

lemma free_loop_nodes:
  "pool_fits h \<Longrightarrow> n \<le> MAXNODES h \<Longrightarrow> i < n \<Longrightarrow>
   GetNode (of_nat i) (free_loop h n s) =
     \<lparr>pageindex = 0, nextnode = (if Suc i = n then sFreeList s else of_nat (Suc i)),
      subpage = FREENODE h\<rparr>"
proof (induction n arbitrary: s)
  case 0
  then show ?case by simp
next
  case (Suc n)
  let ?s' = "ReturnToFreeList h (of_nat n) s"
  have n: "n < MAXNODES h" using Suc.prems by simp
  show ?case
  proof (cases "i = n")
    case True
    have "GetNode (of_nat n) (free_loop h n ?s') = GetNode (of_nat n) ?s'"
      using Suc.prems by (intro free_loop_GetNode_frame) simp_all
    also have "\<dots> = \<lparr>pageindex = 0, nextnode = sFreeList s, subpage = FREENODE h\<rparr>"
      using GetNode_SetNode_same [OF Suc.prems(1) in_pool_of_nat [OF Suc.prems(1) n]]
      by (simp add: ReturnToFreeList_def Let_def)
    finally show ?thesis using True by simp
  next
    case False
    then have "i < n" using Suc.prems by simp
    moreover have "sFreeList ?s' = of_nat n"
      by (simp add: ReturnToFreeList_def Let_def)
    ultimately show ?thesis using Suc.IH [of ?s'] Suc.prems
      by (auto simp del: of_nat_Suc)
  qed
qed

lemma free_loop_spiram_frame:
  "pool_fits h \<Longrightarrow> n \<le> MAXNODES h \<Longrightarrow> unat b < 4096 \<or> 4096 + n * 5 \<le> unat b \<Longrightarrow>
   spiram (free_loop h n s) b = spiram s b"
proof (induction n arbitrary: s)
  case 0
  then show ?case by simp
next
  case (Suc n)
  have n: "n < MAXNODES h" using Suc.prems by simp
  have p: "in_pool h (of_nat n)" using Suc.prems(1) n by (rule in_pool_of_nat)
  have "unat (of_nat n :: 16 word) = n" using p n pool_fits_bound [OF Suc.prems(1)]
    by (simp add: unat_of_nat)
  then have a: "unat (slot_address (of_nat n)) = 4096 + n * 5"
    using unat_slot_address [OF Suc.prems(1) p] by simp
  have "spiram (free_loop h n (ReturnToFreeList h (of_nat n) s)) b
      = spiram (ReturnToFreeList h (of_nat n) s) b"
    using Suc.prems by (intro Suc.IH) auto
  also have "\<dots> = spiram s b"
    using spiram_SetNode_frame [OF Suc.prems(1) p, of b] Suc.prems(3) a
    by (auto simp add: ReturnToFreeList_def Let_def)
  finally show ?case by simp
qed

lemma MakeFreeList_sFreeList: "sFreeList (MakeFreeList h s) = 0"
  by (simp add: MakeFreeList_def Let_def clear_loop_sFreeList free_loop_sFreeList)

lemma MakeFreeList_nodes:
  assumes "pool_fits h" "i < MAXNODES h"
  shows "GetNode (of_nat i) (MakeFreeList h s) =
     \<lparr>pageindex = 0, nextnode = of_nat (Suc i mod MAXNODES h), subpage = FREENODE h\<rparr>"
  using assms
  by (simp add: MakeFreeList_def Let_def clear_loop_GetNode [OF assms(1) in_pool_of_nat [OF assms]]
      free_loop_nodes)

lemma MakeFreeList_directory:
  assumes "unat b < 4096"
  shows "spiram (MakeFreeList h s) b =
     (if even (unat b) then ucast (NULLPTR h) else ucast (drop_bit 8 (NULLPTR h)))"
  using assms by (simp add: MakeFreeList_def Let_def clear_loop_written)

lemma MakeFreeList_outside:
  assumes f: "pool_fits h" and n: "0 < MAXNODES h" and b: "4096 + MAXNODES h * 5 \<le> unat b"
  shows "spiram (MakeFreeList h s) b = spiram s b"
proof -
  have z: "in_pool h 0" using n by (simp add: in_pool_def)
  have a: "unat (slot_address 0) = 4096" using unat_slot_address [OF f z] by simp
  have "spiram (SetNode \<lparr>pageindex = 0, nextnode = 0, subpage = NULLNODE h\<rparr> 0 (s\<lparr>sFreeList := 0\<rparr>)) b
      = spiram s b"
    using spiram_SetNode_frame [OF f z, of b] a b n by simp
  then show ?thesis
    using f b by (simp add: MakeFreeList_def Let_def clear_loop_frame free_loop_spiram_frame)
qed


subsection \<open>Walking the free list\<close>

lemma follow_ring:
  assumes N: "pool_fits h" and j: "j < MAXNODES h"
  shows "follow (MakeFreeList h s0) k (of_nat j) = of_nat ((j + k) mod MAXNODES h)"
  using j
proof (induction k arbitrary: j)
  case 0
  then show ?case by simp
next
  case (Suc k)
  have "Suc j mod MAXNODES h < MAXNODES h" using Suc.prems by simp
  have m: "(Suc j mod MAXNODES h + k) mod MAXNODES h = (j + Suc k) mod MAXNODES h"
    by (simp add: mod_add_left_eq)
  from Suc.IH [OF \<open>Suc j mod MAXNODES h < MAXNODES h\<close>] show ?case
    using N Suc.prems unfolding m by (simp add: MakeFreeList_nodes del: of_nat_Suc)
qed

lemma NewNode_times_ring:
  assumes ne: "FREENODE h \<noteq> NULLNODE h"
  shows "sFreeList s = of_nat (j mod MAXNODES h) \<Longrightarrow> j + k \<le> MAXNODES h \<Longrightarrow>
     (\<forall>i. j \<le> i \<and> i < j + k \<longrightarrow> GetNode (of_nat i) s =
        \<lparr>pageindex = 0, nextnode = of_nat (Suc i mod MAXNODES h), subpage = FREENODE h\<rparr>) \<Longrightarrow>
     NewNode_times h k s =
       (map of_nat [j..<j + k], s\<lparr>sFreeList := of_nat ((j + k) mod MAXNODES h)\<rparr>)"
proof (induction k arbitrary: j s)
  case 0
  then show ?case by simp
next
  case (Suc k)
  have jN: "j < MAXNODES h" using Suc.prems by simp
  have node: "GetNode (of_nat j) s =
      \<lparr>pageindex = 0, nextnode = of_nat (Suc j mod MAXNODES h), subpage = FREENODE h\<rparr>"
    using Suc.prems by simp
  let ?s' = "s\<lparr>sFreeList := of_nat (Suc j mod MAXNODES h)\<rparr>"
  have nn: "NewNode h s = (of_nat j, ?s')"
    using jN node ne Suc.prems(1) by (simp add: NewNode_def Let_def)
  have "NewNode_times h k ?s' =
       (map of_nat [Suc j..<Suc j + k], ?s'\<lparr>sFreeList := of_nat ((Suc j + k) mod MAXNODES h)\<rparr>)"
    using Suc.prems by (intro Suc.IH) simp_all
  then show ?case using nn jN
    by (simp add: upt_conv_Cons del: of_nat_Suc upt_Suc)
qed

lemma NewNode_times_snoc:
  "NewNode_times h (Suc k) s =
     (let (xs, s1) = NewNode_times h k s; (x, s2) = NewNode h s1 in (xs @ [x], s2))"
proof (induction k arbitrary: s)
  case 0
  then show ?case by (simp add: Let_def split: prod.splits)
next
  case (Suc k)
  obtain ix s1 where a: "NewNode h s = (ix, s1)" by (cases "NewNode h s")
  obtain xs t1 where b: "NewNode_times h k s1 = (xs, t1)" by (cases "NewNode_times h k s1")
  obtain x t2 where c: "NewNode h t1 = (x, t2)" by (cases "NewNode h t1")
  have d: "NewNode_times h (Suc k) s1 = (xs @ [x], t2)"
    using Suc.IH [of s1] b c by simp
  have e: "NewNode_times h (Suc k) s = (ix # xs, t1)"
    using a b by simp
  have "NewNode_times h (Suc (Suc k)) s = (ix # xs @ [x], t2)"
    using a d by (simp del: NewNode_times.simps add: NewNode_times.simps(2) [of h "Suc k" s])
  then show ?case using e c by (simp del: NewNode_times.simps)
qed

lemma NewNode_times_fresh:
  assumes "pool_fits h" "FREENODE h \<noteq> NULLNODE h" "k \<le> MAXNODES h"
  shows "NewNode_times h k (MakeFreeList h s0) =
     (map of_nat [0..<k], (MakeFreeList h s0)\<lparr>sFreeList := of_nat (k mod MAXNODES h)\<rparr>)"
  using NewNode_times_ring [OF assms(2), of "MakeFreeList h s0" 0 k] assms
  by (simp add: MakeFreeList_sFreeList MakeFreeList_nodes)


subsection \<open>The effect of LinkPage\<close>

lemma fst_NewNode: "fst (NewNode h s) = sFreeList s"
  by (simp add: NewNode_def Let_def)

lemma spiram_NewNode: "spiram (snd (NewNode h s)) = spiram s"
  by (simp add: NewNode_def Let_def)

lemma sDisplayList_NewNode: "sDisplayList (snd (NewNode h s)) = sDisplayList s"
  by (simp add: NewNode_def Let_def)

lemma GetNode_NewNode: "GetNode i (snd (NewNode h s)) = GetNode i s"
  by (simp add: GetNode_def spiram_NewNode)

lemma GetNodePtr_NewNode: "GetNodePtr c (snd (NewNode h s)) = GetNodePtr c s"
  by (simp add: GetNodePtr_def spiram_NewNode)

lemma LinkPage_eq:
  "LinkPage h mg pg sp ix s =
     SetNode \<lparr>pageindex = ix, nextnode = NULLPTR h, subpage = sp\<rparr> (sFreeList s)
       (SetNodePtr (sFreeList s) (cellAddress mg pg) (snd (NewNode h s)))"
  by (simp add: LinkPage_def NewNode_def Let_def)

lemma LinkPage_sFreeList:
  "sFreeList (LinkPage h mg pg sp ix s) = sFreeList (snd (NewNode h s))"
  by (simp add: LinkPage_eq)

lemma LinkPage_sDisplayList:
  "sDisplayList (LinkPage h mg pg sp ix s) = sDisplayList s"
  by (simp add: LinkPage_eq sDisplayList_NewNode)

lemma LinkPage_GetNode_new:
  assumes "pool_fits h" "in_pool h (sFreeList s)"
  shows "GetNode (sFreeList s) (LinkPage h mg pg sp ix s) =
     \<lparr>pageindex = ix, nextnode = NULLPTR h, subpage = sp\<rparr>"
  by (simp add: LinkPage_eq GetNode_SetNode_same [OF assms])

lemma LinkPage_GetNode_other:
  assumes f: "pool_fits h" and i: "in_pool h (sFreeList s)" and j: "in_pool h j"
    and ne: "sFreeList s \<noteq> j"
  shows "GetNode j (LinkPage h mg pg sp ix s) = GetNode j s"
  by (simp add: LinkPage_eq GetNode_SetNode_other [OF f i j ne]
      GetNode_SetNodePtr [OF f j cell_in_directory] GetNode_NewNode)

lemma LinkPage_GetNodePtr_same:
  assumes f: "pool_fits h" and i: "in_pool h (sFreeList s)"
  shows "GetNodePtr (cellAddress mg pg) (LinkPage h mg pg sp ix s) = sFreeList s"
proof -
  have "unat (cellAddress mg pg) + 2 \<le> 65536" using cell_in_directory [of mg pg] by simp
  then show ?thesis
    by (simp add: LinkPage_eq GetNodePtr_SetNode [OF f i cell_in_directory]
        GetNodePtr_SetNodePtr_same)
qed

lemma LinkPage_GetNodePtr_other:
  assumes f: "pool_fits h" and i: "in_pool h (sFreeList s)"
    and ne: "cellAddress mg pg \<noteq> cellAddress mg' pg'"
  shows "GetNodePtr (cellAddress mg' pg') (LinkPage h mg pg sp ix s)
       = GetNodePtr (cellAddress mg' pg') s"
proof -
  have c: "unat (cellAddress mg pg) + 2 \<le> 65536" using cell_in_directory [of mg pg] by simp
  have c': "unat (cellAddress mg' pg') + 2 \<le> 65536"
    using cell_in_directory [of mg' pg'] by simp
  show ?thesis
    by (simp add: LinkPage_eq GetNodePtr_SetNode [OF f i cell_in_directory]
        GetNodePtr_SetNodePtr_other [OF c c' cell_apart [OF ne]] GetNodePtr_NewNode)
qed

lemma LinkPage_spiram_frame:
  assumes "\<forall>k<2. b \<noteq> cellAddress mg pg + of_nat k"
    and "\<forall>k<5. b \<noteq> slot_address (sFreeList s) + of_nat k"
  shows "spiram (LinkPage h mg pg sp ix s) b = spiram s b"
proof -
  let ?node = "\<lparr>pageindex = ix, nextnode = NULLPTR h, subpage = sp\<rparr>"
  let ?m = "WriteSPIRam (bytes_of_uint16 (sFreeList s)) (cellAddress mg pg) (spiram s)"
  have "WriteSPIRam (bytes_of_DISPLAYNODE ?node) (slot_address (sFreeList s)) ?m b = ?m b"
    using assms(2) by (intro WriteSPIRam_other) (simp add: length_bytes_of_DISPLAYNODE)
  moreover have "?m b = spiram s b"
    using assms(1) by (intro WriteSPIRam_other) (simp add: length_bytes_of_uint16)
  ultimately show ?thesis
    by (simp add: LinkPage_eq SetNode_def SetNodePtr_def spiram_NewNode)
qed


subsection \<open>The loop over the index\<close>

lemma scan_loop_eq:
  "scan_loop P g h recs ix p s = map_option (\<lambda>ps. link_pages h ps ix s) (scan_pages P g recs p)"
  by (induction recs arbitrary: ix p s) (auto split: option.splits)

lemma scan_pages_length: "scan_pages P g recs p = Some ps \<Longrightarrow> length ps = length recs"
  by (induction recs arbitrary: p ps) (auto split: option.splits)

lemma link_pages_snoc:
  "link_pages h (ps @ [p]) ix s =
     LinkPage h (mag p) (page p) (PAGE.subpage p) (ix + of_nat (length ps)) (link_pages h ps ix s)"
  by (induction ps arbitrary: ix s) (simp_all add: add.assoc add.commute)

lemma link_pages_fresh:
  assumes f: "pool_fits h" and ne: "FREENODE h \<noteq> NULLNODE h"
  shows "length ps \<le> MAXNODES h \<Longrightarrow>
    distinct (map (\<lambda>p. cellAddress (mag p) (page p)) ps) \<Longrightarrow>
    sFreeList (link_pages h ps ix (MakeFreeList h s0)) = of_nat (length ps mod MAXNODES h)
    \<and> (\<forall>k<length ps.
          GetNodePtr (cellAddress (mag (ps ! k)) (page (ps ! k)))
             (link_pages h ps ix (MakeFreeList h s0)) = of_nat k
        \<and> GetNode (of_nat k) (link_pages h ps ix (MakeFreeList h s0)) =
             \<lparr>pageindex = ix + of_nat k, nextnode = NULLPTR h, subpage = PAGE.subpage (ps ! k)\<rparr>)
    \<and> (\<forall>i. length ps \<le> i \<and> i < MAXNODES h \<longrightarrow>
          GetNode (of_nat i) (link_pages h ps ix (MakeFreeList h s0))
            = GetNode (of_nat i) (MakeFreeList h s0))"
proof (induction ps rule: rev_induct)
  case Nil
  then show ?case by (simp add: MakeFreeList_sFreeList)
next
  case (snoc p ps)
  let ?F = "MakeFreeList h s0"
  let ?s = "link_pages h ps ix ?F"
  let ?n = "length ps"
  let ?c = "\<lambda>q. cellAddress (mag q) (page q)"
  let ?rec = "\<lparr>pageindex = ix + of_nat ?n, nextnode = NULLPTR h, subpage = PAGE.subpage p\<rparr>"
  let ?t = "link_pages h (ps @ [p]) ix ?F"
  have n: "?n < MAXNODES h" using snoc.prems by simp
  have N: "MAXNODES h \<le> 65536" using pool_fits_bound [OF f] by simp
  have d: "distinct (map ?c ps)" and fresh_c: "?c p \<notin> ?c ` set ps"
    using snoc.prems by simp_all
  have IH: "sFreeList ?s = of_nat (?n mod MAXNODES h)"
    "\<And>k. k < ?n \<Longrightarrow> GetNodePtr (?c (ps ! k)) ?s = of_nat k"
    "\<And>k. k < ?n \<Longrightarrow> GetNode (of_nat k) ?s =
        \<lparr>pageindex = ix + of_nat k, nextnode = NULLPTR h, subpage = PAGE.subpage (ps ! k)\<rparr>"
    "\<And>i. ?n \<le> i \<Longrightarrow> i < MAXNODES h \<Longrightarrow> GetNode (of_nat i) ?s = GetNode (of_nat i) ?F"
    using snoc.IH [OF _ d] n by simp_all
  have head: "sFreeList ?s = of_nat ?n" using IH(1) n by simp
  have hp: "in_pool h (sFreeList ?s)" unfolding head using f n by (rule in_pool_of_nat)
  have node: "GetNode (of_nat ?n) ?s =
      \<lparr>pageindex = 0, nextnode = of_nat (Suc ?n mod MAXNODES h), subpage = FREENODE h\<rparr>"
    using IH(4) [of ?n] n MakeFreeList_nodes [OF f n, of s0] by simp
  have t: "?t = LinkPage h (mag p) (page p) (PAGE.subpage p) (ix + of_nat ?n) ?s"
    by (rule link_pages_snoc)
  have t_head: "sFreeList ?t = of_nat (Suc ?n mod MAXNODES h)"
    using node ne by (simp add: t LinkPage_sFreeList NewNode_def Let_def head)
  have t_cell: "GetNodePtr (?c p) ?t = of_nat ?n"
    unfolding t using LinkPage_GetNodePtr_same [OF f hp] by (simp add: head)
  have t_new: "GetNode (of_nat ?n) ?t = ?rec"
    unfolding t using LinkPage_GetNode_new [OF f hp] by (simp add: head)
  have t_cell_other: "GetNodePtr (?c q) ?t = GetNodePtr (?c q) ?s" if "?c p \<noteq> ?c q" for q
    unfolding t using f hp that by (rule LinkPage_GetNodePtr_other)
  have t_other: "GetNode (of_nat j) ?t = GetNode (of_nat j) ?s"
    if "j < MAXNODES h" "j \<noteq> ?n" for j
  proof -
    have "sFreeList ?s \<noteq> of_nat j"
      unfolding head using that n N by (simp add: of_nat_16_inj)
    then show ?thesis
      unfolding t using f hp in_pool_of_nat [OF f that(1)] by (intro LinkPage_GetNode_other)
  qed
  have a: "sFreeList ?t = of_nat (length (ps @ [p]) mod MAXNODES h)"
    using t_head by simp
  have b: "GetNodePtr (?c ((ps @ [p]) ! k)) ?t = of_nat k
        \<and> GetNode (of_nat k) ?t =
             \<lparr>pageindex = ix + of_nat k, nextnode = NULLPTR h,
              subpage = PAGE.subpage ((ps @ [p]) ! k)\<rparr>"
    if "k < length (ps @ [p])" for k
  proof (cases "k = ?n")
    case True
    then show ?thesis by (simp add: t_cell t_new)
  next
    case False
    then have k: "k < ?n" using that by simp
    have "ps ! k \<in> set ps" using k by simp
    then have "?c (ps ! k) \<in> ?c ` set ps" by (rule imageI)
    then have c: "?c p \<noteq> ?c (ps ! k)" using fresh_c by auto
    have e: "(ps @ [p]) ! k = ps ! k" using k by (simp add: nth_append)
    have kN: "k < MAXNODES h" using k n by simp
    show ?thesis unfolding e
      using t_cell_other [OF c] t_other [OF kN False] IH(2) [OF k] IH(3) [OF k] by simp
  qed
  have c: "GetNode (of_nat i) ?t = GetNode (of_nat i) ?F"
    if "length (ps @ [p]) \<le> i \<and> i < MAXNODES h" for i
    using that t_other [of i] IH(4) [of i] by simp
  show ?case
  proof (intro conjI allI impI)
    show "sFreeList ?t = of_nat (length (ps @ [p]) mod MAXNODES h)" by (rule a)
  next
    fix k assume "k < length (ps @ [p])"
    then show "GetNodePtr (?c ((ps @ [p]) ! k)) ?t = of_nat k" using b by blast
  next
    fix k assume "k < length (ps @ [p])"
    then show "GetNode (of_nat k) ?t =
             \<lparr>pageindex = ix + of_nat k, nextnode = NULLPTR h,
              subpage = PAGE.subpage ((ps @ [p]) ! k)\<rparr>" using b by blast
  next
    fix i assume "length (ps @ [p]) \<le> i \<and> i < MAXNODES h"
    then show "GetNode (of_nat i) ?t = GetNode (of_nat i) ?F" by (rule c)
  qed
qed

lemma header_loop_stuck:
  assumes step: "\<And>q pos. pos \<in> S \<Longrightarrow> mag q = 9 \<Longrightarrow> snd (g pos) \<in> S \<and> mag (P q (fst (g pos))) = 9"
    and start: "pos \<in> S" "mag p = 9"
  shows "header_loop P g pos p = None"
proof -
  define Q :: "line_parser \<Rightarrow> line_reader \<Rightarrow> nat \<Rightarrow> PAGE \<Rightarrow> PAGE \<times> nat \<Rightarrow> bool"
    where "Q = (\<lambda>P' g' pos p y. P' = P \<longrightarrow> g' = g \<longrightarrow> pos \<in> S \<longrightarrow> mag p \<noteq> 9)"
  have no: "Q P' g' pos p y" if "header_loop P' g' pos p = Some y" for P' g' pos p y
  proof (rule header_loop.raw_induct [where P = Q, OF _ that])
    fix hl :: "line_parser \<Rightarrow> line_reader \<Rightarrow> nat \<Rightarrow> PAGE \<Rightarrow> (PAGE \<times> nat) option"
      and P' g' pos p y
    assume IH: "\<And>P' g' pos p y. hl P' g' pos p = Some y \<Longrightarrow> Q P' g' pos p y"
      and body: "(if mag p = 9 then hl P' g' (snd (g' pos)) (P' p (fst (g' pos)))
                  else Some (p, pos)) = Some y"
    show "Q P' g' pos p y"
      unfolding Q_def
    proof (intro impI notI)
      assume e: "P' = P" "g' = g" and pos: "pos \<in> S" and m: "mag p = 9"
      have "hl P g (snd (g pos)) (P p (fst (g pos))) = Some y"
        using body e m by simp
      then have "Q P g (snd (g pos)) (P p (fst (g pos))) y" by (rule IH)
      then show False using step [OF pos m] by (simp add: Q_def)
    qed
  qed
  show ?thesis
  proof (cases "header_loop P g pos p")
    case None
    then show ?thesis .
  next
    case (Some y)
    then have "Q P g pos p y" by (rule no)
    then show ?thesis using start by (simp add: Q_def)
  qed
qed

lemma read_line_eof: "length data \<le> pos \<Longrightarrow> read_line data pos = (None, pos)"
  by (simp add: read_line_def)


subsection \<open>The example states and cards\<close>

lemma scan_card2: "scan_pages digit_parser (read_line data2) recs2 page0 = Some [pA, pB]"
  by (simp add: header_loop.simps read_line_def Let_def page0_def pA_def pB_def data2_def recs2_def)

lemma scan_card3: "scan_pages digit_parser (read_line data3) recs3 page0 = Some [pA, pB, pC]"
  by (simp add: header_loop.simps read_line_def Let_def page0_def pA_def pB_def pC_def
      data3_def recs3_def)

lemma header_none: "header_loop digit_parser (read_line data_none) 0 (page0\<lparr>mag := 9\<rparr>) = None"
proof -
  have a: "header_loop digit_parser (read_line data_none) 0 (page0\<lparr>mag := 9\<rparr>)
        = header_loop digit_parser (read_line data_none) 5 (page0\<lparr>mag := 9\<rparr>)"
    by (subst header_loop.simps)
      (simp add: read_line_def Let_def data_none_def page0_def eval_nat_numeral)
  have "header_loop digit_parser (read_line data_none) 5 (page0\<lparr>mag := 9\<rparr>) = None"
  proof (rule header_loop_stuck [where S = "{pos. 5 \<le> pos}"])
    fix q :: PAGE and pos :: nat
    assume "pos \<in> {pos. 5 \<le> pos}" and "mag q = 9"
    then show "snd (read_line data_none pos) \<in> {pos. 5 \<le> pos}
        \<and> mag (digit_parser q (fst (read_line data_none pos))) = 9"
      by (simp add: read_line_eof data_none_def)
  qed (simp_all add: page0_def)
  with a show ?thesis by simp
qed

lemma header_late:
  "header_loop digit_parser (read_line data_late) 0 (page0\<lparr>mag := 9\<rparr>) = Some (pA, 10)"
  by (simp add: header_loop.simps read_line_def Let_def page0_def pA_def data_late_def)

lemma scan_late: "scan_pages digit_parser (read_line data_late) recs2 page0 = Some [pA, pA]"
  by (simp add: header_loop.simps read_line_def Let_def page0_def pA_def data_late_def recs2_def)

lemma cell_1_0: "cellAddress 1 0 = 0"
  by (simp add: cellAddress_def sizeof_NODEPTR_def)

lemma cell_1_1: "cellAddress 1 1 = 2"
  by (simp add: cellAddress_def sizeof_NODEPTR_def)

lemma cell_1_2: "cellAddress 1 2 = 4"
  by (simp add: cellAddress_def sizeof_NODEPTR_def)

lemma pool2_fits: "pool_fits pool2"
  by (simp add: pool_fits_def pool2_def PAGEARRAYSIZE_def sizeof_NODEPTR_def sizeof_DISPLAYNODE_def)

lemma in_pool2_0: "in_pool pool2 0"
  by (simp add: in_pool_def pool2_def)

lemma in_pool2_1: "in_pool pool2 1"
  by (simp add: in_pool_def pool2_def)

lemma ram_fresh_sFreeList: "sFreeList ram_fresh = 0"
  by (simp add: ram_fresh_def MakeFreeList_sFreeList)

lemma ram_fresh_node0: "GetNode 0 ram_fresh = \<lparr>pageindex = 0, nextnode = 1, subpage = 0xFE\<rparr>"
  using MakeFreeList_nodes [OF pool2_fits, of 0] by (simp add: ram_fresh_def pool2_def)

lemma ram_fresh_node1: "GetNode 1 ram_fresh = \<lparr>pageindex = 0, nextnode = 0, subpage = 0xFE\<rparr>"
  using MakeFreeList_nodes [OF pool2_fits, of 1] by (simp add: ram_fresh_def pool2_def)

lemma ram_one_sFreeList: "sFreeList ram_one = 1"
  by (simp add: ram_one_def LinkPage_sFreeList NewNode_def Let_def
      ram_fresh_sFreeList ram_fresh_node0 pool2_def)

lemma ram_one_node0: "GetNode 0 ram_one = \<lparr>pageindex = 0, nextnode = 0xFFFF, subpage = 0\<rparr>"
  using LinkPage_GetNode_new [OF pool2_fits, of ram_fresh 1 0 0 0] in_pool2_0
  by (simp add: ram_one_def ram_fresh_sFreeList pool2_def)

lemma ram_one_node1: "GetNode 1 ram_one = \<lparr>pageindex = 0, nextnode = 0, subpage = 0xFE\<rparr>"
  using LinkPage_GetNode_other [OF pool2_fits, of ram_fresh 1 1 0 0 0] in_pool2_0 in_pool2_1
  by (simp add: ram_one_def ram_fresh_sFreeList ram_fresh_node1)

lemma ram_one_Lookup: "Lookup 1 0 ram_one = 0"
  using LinkPage_GetNodePtr_same [OF pool2_fits, of ram_fresh 1 0 0 0] in_pool2_0
  by (simp add: ram_one_def Lookup_def ram_fresh_sFreeList)

lemma ram_two_sFreeList: "sFreeList ram_two = 0"
  by (simp add: ram_two_def LinkPage_sFreeList NewNode_def Let_def
      ram_one_sFreeList ram_one_node1 pool2_def)

lemma ram_two_node0: "GetNode 0 ram_two = \<lparr>pageindex = 0, nextnode = 0xFFFF, subpage = 0\<rparr>"
  using LinkPage_GetNode_other [OF pool2_fits, of ram_one 0 1 1 0 1] in_pool2_0 in_pool2_1
  by (simp add: ram_two_def ram_one_sFreeList ram_one_node0)

lemma ram_two_Lookup: "Lookup 1 0 ram_two = 0"
  using LinkPage_GetNodePtr_other [OF pool2_fits, of ram_one 1 1 1 0 0 1] in_pool2_1
    ram_one_Lookup
  by (simp add: ram_two_def Lookup_def ram_one_sFreeList cell_1_0 cell_1_1)

lemma ram_three_sFreeList: "sFreeList ram_three = 0xFFFF"
  by (simp add: ram_three_def LinkPage_sFreeList NewNode_def Let_def
      ram_two_sFreeList ram_two_node0 pool2_def)

lemma ram_three_node0: "GetNode 0 ram_three = \<lparr>pageindex = 2, nextnode = 0xFFFF, subpage = 0\<rparr>"
  using LinkPage_GetNode_new [OF pool2_fits, of ram_two 1 2 0 2] in_pool2_0
  by (simp add: ram_three_def ram_two_sFreeList pool2_def)

lemma ram_three_Lookup: "Lookup 1 0 ram_three = 0"
  using LinkPage_GetNodePtr_other [OF pool2_fits, of ram_two 1 2 1 0 0 2] in_pool2_0
    ram_two_Lookup
  by (simp add: ram_three_def Lookup_def ram_two_sFreeList cell_1_0 cell_1_2)

lemma Init_card3: "InitDisplayList digit_parser pool2 card3 page0 ram0 = Some (0, ram_three)"
  by (simp add: InitDisplayList_def ScanPageList_def Let_def card3_def scan_loop_eq scan_card3)
    (simp add: pA_def pB_def pC_def ram_three_def ram_two_def ram_one_def ram_fresh_def)


subsection \<open>A slot number outside the pool\<close>

lemma ReadSPIRam_5:
  "ReadSPIRam 5 a m = [m a, m (a + 1), m (a + 2), m (a + 3), m (a + 4)]"
  by (simp add: ReadSPIRam_def upt_rec)

lemma ReadSPIRam_2: "ReadSPIRam 2 a m = [m a, m (a + 1)]"
  by (simp add: ReadSPIRam_def upt_rec)

lemma GetNode_bytes:
  "GetNode i s =
     \<lparr>pageindex = uint16_of_bytes (spiram s (slot_address i)) (spiram s (slot_address i + 1)),
      nextnode = uint16_of_bytes (spiram s (slot_address i + 2)) (spiram s (slot_address i + 3)),
      subpage = spiram s (slot_address i + 4)\<rparr>"
  by (simp add: GetNode_def sizeof_DISPLAYNODE_def ReadSPIRam_5 DISPLAYNODE_of_bytes_def)

lemma GetNodePtr_bytes:
  "GetNodePtr c s = uint16_of_bytes (spiram s c) (spiram s (c + 1))"
  by (simp add: GetNodePtr_def sizeof_NODEPTR_def ReadSPIRam_2)

lemma spiram_SetNode:
  "spiram (SetNode node i s) =
     (spiram s)(slot_address i := ucast (pageindex node),
        slot_address i + 1 := ucast (drop_bit 8 (pageindex node)),
        slot_address i + 2 := ucast (nextnode node),
        slot_address i + 3 := ucast (drop_bit 8 (nextnode node)),
        slot_address i + 4 := subpage node)"
  by (simp add: SetNode_def bytes_of_DISPLAYNODE_def bytes_of_uint16_def add.assoc)

lemma spiram_SetNodePtr_upd:
  "spiram (SetNodePtr v c s) = (spiram s)(c := ucast v, c + 1 := ucast (drop_bit 8 v))"
  by (simp add: SetNodePtr_def bytes_of_uint16_def)

lemma LinkPage_spiram_frame_unat:
  assumes f: "pool_fits h" and i: "in_pool h (sFreeList s)"
    and c: "unat b < unat (cellAddress mg pg) \<or> unat (cellAddress mg pg) + 2 \<le> unat b"
    and a: "unat b < unat (slot_address (sFreeList s))
          \<or> unat (slot_address (sFreeList s)) + 5 \<le> unat b"
  shows "spiram (LinkPage h mg pg sp ix s) b = spiram s b"
proof (rule LinkPage_spiram_frame)
  show "\<forall>k<2. b \<noteq> cellAddress mg pg + of_nat k"
  proof (intro allI impI)
    fix k :: nat assume k: "k < 2"
    have "unat (cellAddress mg pg + of_nat k) = unat (cellAddress mg pg) + k"
      using cell_in_directory [of mg pg] k by (intro unat_plus_16) simp
    then show "b \<noteq> cellAddress mg pg + of_nat k" using c k by auto
  qed
  show "\<forall>k<5. b \<noteq> slot_address (sFreeList s) + of_nat k"
  proof (intro allI impI)
    fix k :: nat assume k: "k < 5"
    have "unat (slot_address (sFreeList s) + of_nat k) = unat (slot_address (sFreeList s)) + k"
      using slot_in_ram [OF f i] k by (intro unat_plus_16) simp
    then show "b \<noteq> slot_address (sFreeList s) + of_nat k" using a k by auto
  qed
qed

lemma unat_slot_pool2_0: "unat (slot_address 0) = 4096"
  using unat_slot_address [OF pool2_fits in_pool2_0] by simp

lemma unat_slot_pool2_1: "unat (slot_address 1) = 4101"
  using unat_slot_address [OF pool2_fits in_pool2_1] by simp

lemma ram_three_frame:
  assumes "6 \<le> unat b \<and> unat b < 4096 \<or> 4106 \<le> unat b"
  shows "spiram ram_three b = spiram ram_fresh b"
proof -
  have "spiram ram_three b = spiram ram_two b"
    unfolding ram_three_def using assms
    by (intro LinkPage_spiram_frame_unat [OF pool2_fits])
      (auto simp: ram_two_sFreeList in_pool2_0 cell_1_2 unat_slot_pool2_0)
  also have "\<dots> = spiram ram_one b"
    unfolding ram_two_def using assms
    by (intro LinkPage_spiram_frame_unat [OF pool2_fits])
      (auto simp: ram_one_sFreeList in_pool2_1 cell_1_1 unat_slot_pool2_1)
  also have "\<dots> = spiram ram_fresh b"
    unfolding ram_one_def using assms
    by (intro LinkPage_spiram_frame_unat [OF pool2_fits])
      (auto simp: ram_fresh_sFreeList in_pool2_0 cell_1_0 unat_slot_pool2_0)
  finally show ?thesis .
qed

lemma ram_three_directory:
  assumes "6 \<le> unat b" "unat b < 4096"
  shows "spiram ram_three b = 0xFF"
  using assms MakeFreeList_directory [of b pool2]
  by (simp add: ram_three_frame ram_fresh_def pool2_def)

lemma ram_three_outside:
  assumes "4106 \<le> unat b"
  shows "spiram ram_three b = 0"
proof -
  have "spiram ram_fresh b = 0"
    unfolding ram_fresh_def using assms
    by (subst MakeFreeList_outside [OF pool2_fits]) (simp_all add: pool2_def ram0_def)
  then show ?thesis using assms by (simp add: ram_three_frame)
qed

lemma slot_address_FFFF: "slot_address 0xFFFF = 4091"
  by (simp add: slot_address_def sizeof_DISPLAYNODE_def PAGEARRAYSIZE_def sizeof_NODEPTR_def)

lemma slot_address_255: "slot_address 0xFF = 5371"
  by (simp add: slot_address_def sizeof_DISPLAYNODE_def PAGEARRAYSIZE_def sizeof_NODEPTR_def)

lemma cell_8_255: "cellAddress 8 255 = 4094"
  by (simp add: cellAddress_def sizeof_NODEPTR_def)

lemma NULLPTR_pool2: "NULLPTR pool2 = 0xFFFF"
  by (simp add: pool2_def)

lemma NULLNODE_pool2: "NULLNODE pool2 = 0xFF"
  by (simp add: pool2_def)

lemma low_byte_FFFF: "(65535 :: 8 word) = 255"
  by simp

lemma ram_three_node_FFFF:
  "GetNode 0xFFFF ram_three = \<lparr>pageindex = 0xFFFF, nextnode = 0xFFFF, subpage = 0xFF\<rparr>"
  by (simp add: GetNode_bytes slot_address_FFFF ram_three_directory uint16_of_bytes_def)

lemma NewNode_ram_three: "NewNode pool2 ram_three = (0xFFFF, ram_three)"
  by (simp add: NewNode_def Let_def ram_three_sFreeList ram_three_node_FFFF NULLNODE_pool2)

lemma ram_four_sFreeList: "sFreeList ram_four = 0xFFFF"
  by (simp add: ram_four_def LinkPage_sFreeList NewNode_ram_three ram_three_sFreeList)

lemma spiram_ram_four:
  "spiram ram_four =
     (spiram ram_three)(4091 := 3, 4092 := 0, 4093 := 0xFF, 4094 := 0xFF, 4095 := 0)"
  by (simp add: ram_four_def LinkPage_eq NewNode_ram_three ram_three_sFreeList spiram_SetNode
      spiram_SetNodePtr_upd slot_address_FFFF cell_8_255 NULLPTR_pool2 low_byte_FFFF
     )

lemma ram_four_node_FFFF:
  "GetNode 0xFFFF ram_four = \<lparr>pageindex = 3, nextnode = 0xFFFF, subpage = 0\<rparr>"
  by (simp add: GetNode_bytes slot_address_FFFF spiram_ram_four uint16_of_bytes_def)

lemma NewNode_ram_four: "NewNode pool2 ram_four = (0xFFFF, ram_four\<lparr>sFreeList := 0xFFFF\<rparr>)"
  by (simp add: NewNode_def Let_def ram_four_sFreeList ram_four_node_FFFF NULLNODE_pool2)

lemma spiram_ram_five:
  "spiram ram_five =
     (spiram ram_three)(4091 := 4, 4092 := 0, 4093 := 0xFF, 4094 := 0xFF, 4095 := 0)"
  by (simp add: ram_five_def LinkPage_eq NewNode_ram_four ram_four_sFreeList spiram_SetNode
      spiram_SetNodePtr_upd slot_address_FFFF cell_8_255 NULLPTR_pool2 low_byte_FFFF
      spiram_ram_four)

lemma ram_five_Lookup: "Lookup 8 255 ram_five = 0xFF"
  by (simp add: Lookup_def GetNodePtr_bytes cell_8_255 spiram_ram_five uint16_of_bytes_def)

lemma ram_five_node_255:
  "GetNode 0xFF ram_five = \<lparr>pageindex = 0, nextnode = 0, subpage = 0\<rparr>"
  by (simp add: GetNode_bytes slot_address_255 spiram_ram_five ram_three_outside
      uint16_of_bytes_def)


subsection \<open>Claims about the free list\<close>

text \<open>
  Claim C1 (free-list closure). After \<open>MakeFreeList\<close> on a pool of at least one node that
  fits the RAM, following \<open>next\<close> from the head of the free list visits the nodes 0, 1,
  ..., \<open>MAXNODES - 1\<close>, each once, in the first \<open>MAXNODES\<close> positions. The claim that
  the walk ends at a node carrying \<open>NULLNODE\<close> fails: the loop of \<open>MakeFreeList\<close> runs
  down to \<open>i = 0\<close> and overwrites the \<open>NULLNODE\<close> node written just before, so after
  \<open>MAXNODES\<close> steps the walk is back at the head, and no node that it ever reaches
  carries \<open>NULLNODE\<close>.
\<close>

theorem MakeFreeList_free_list_circular:
  assumes "0 < MAXNODES h" "pool_fits h" "FREENODE h \<noteq> NULLNODE h"
  shows "map (\<lambda>k. follow (MakeFreeList h s0) k (sFreeList (MakeFreeList h s0))) [0..<MAXNODES h]
           = map of_nat [0..<MAXNODES h]
       \<and> follow (MakeFreeList h s0) (MAXNODES h) (sFreeList (MakeFreeList h s0))
           = sFreeList (MakeFreeList h s0)
       \<and> DISPLAYNODE.subpage (GetNode (follow (MakeFreeList h s0) k (sFreeList (MakeFreeList h s0)))
            (MakeFreeList h s0)) \<noteq> NULLNODE h"
proof -
  have f: "follow (MakeFreeList h s0) k (sFreeList (MakeFreeList h s0)) = of_nat (k mod MAXNODES h)" for k
    using follow_ring [OF assms(2) assms(1), of s0 k] by (simp add: MakeFreeList_sFreeList)
  have a: "map (\<lambda>k. follow (MakeFreeList h s0) k (sFreeList (MakeFreeList h s0))) [0..<MAXNODES h]
           = map of_nat [0..<MAXNODES h]"
    by (rule map_cong) (simp_all add: f)
  have b: "follow (MakeFreeList h s0) (MAXNODES h) (sFreeList (MakeFreeList h s0))
           = sFreeList (MakeFreeList h s0)"
    using f [of "MAXNODES h"] by (simp add: MakeFreeList_sFreeList)
  have c: "DISPLAYNODE.subpage (GetNode (follow (MakeFreeList h s0) k (sFreeList (MakeFreeList h s0)))
            (MakeFreeList h s0)) \<noteq> NULLNODE h"
    using assms by (simp add: f MakeFreeList_nodes)
  show ?thesis using a b c by blast
qed

theorem MakeFreeList_free_list_circular_witness:
  "0 < MAXNODES pool2 \<and> pool_fits pool2 \<and> FREENODE pool2 \<noteq> NULLNODE pool2
   \<and> map (\<lambda>k. follow (MakeFreeList pool2 ram0) k (sFreeList (MakeFreeList pool2 ram0)))
         [0..<MAXNODES pool2] = map of_nat [0..<MAXNODES pool2]
   \<and> follow (MakeFreeList pool2 ram0) (MAXNODES pool2) (sFreeList (MakeFreeList pool2 ram0))
           = sFreeList (MakeFreeList pool2 ram0)
   \<and> DISPLAYNODE.subpage (GetNode (follow (MakeFreeList pool2 ram0) 2 (sFreeList (MakeFreeList pool2 ram0)))
            (MakeFreeList pool2 ram0)) \<noteq> NULLNODE pool2"
proof -
  have h1: "0 < MAXNODES pool2" and h3: "FREENODE pool2 \<noteq> NULLNODE pool2"
    by (simp_all add: pool2_def)
  have h2: "pool_fits pool2" by (rule pool2_fits)
  show ?thesis using h1 h2 h3 MakeFreeList_free_list_circular [OF h1 h2 h3, of ram0 2] by blast
qed

text \<open>
  Claim C3 (exhaustion). On a freshly formatted pool, \<open>MAXNODES + 1\<close> calls of
  \<open>NewNode\<close> return the nodes 0, 1, ..., \<open>MAXNODES - 1\<close> and then node 0 again. The
  claim that the last call finds the head node carrying \<open>NULLNODE\<close> fails: the test of
  \<open>NewNode\<close> is false in the state before each of these calls (the state after \<open>k\<close>
  calls, for every \<open>k\<close> up to \<open>MAXNODES\<close>).
\<close>

theorem NewNode_never_out_of_nodes:
  assumes "0 < MAXNODES h" "pool_fits h" "FREENODE h \<noteq> NULLNODE h"
    and "k \<le> MAXNODES h"
  shows "fst (NewNode_times h (MAXNODES h + 1) (MakeFreeList h s0)) = map of_nat [0..<MAXNODES h] @ [0]
       \<and> \<not> out_of_nodes h (snd (NewNode_times h k (MakeFreeList h s0)))"
proof -
  let ?s = "MakeFreeList h s0"
  have full: "NewNode_times h (MAXNODES h) ?s = (map of_nat [0..<MAXNODES h], ?s)"
    using NewNode_times_fresh [OF assms(2,3), of "MAXNODES h" s0]
    by (simp add: MakeFreeList_sFreeList [symmetric])
  have head: "NewNode h ?s = (0, ?s\<lparr>sFreeList := of_nat (1 mod MAXNODES h)\<rparr>)"
    using assms MakeFreeList_nodes [OF assms(2,1), of s0]
    by (simp add: NewNode_def Let_def MakeFreeList_sFreeList)
  have a: "fst (NewNode_times h (MAXNODES h + 1) ?s) = map of_nat [0..<MAXNODES h] @ [0]"
    using full head by (simp add: NewNode_times_snoc del: NewNode_times.simps)
  have b: "\<not> out_of_nodes h (snd (NewNode_times h k ?s))"
    using NewNode_times_fresh [OF assms(2,3,4), of s0] assms
    by (simp add: out_of_nodes_def MakeFreeList_nodes)
  show ?thesis using a b by blast
qed

theorem NewNode_never_out_of_nodes_witness:
  "0 < MAXNODES pool2 \<and> pool_fits pool2 \<and> FREENODE pool2 \<noteq> NULLNODE pool2
   \<and> 2 \<le> MAXNODES pool2
   \<and> fst (NewNode_times pool2 (MAXNODES pool2 + 1) (MakeFreeList pool2 ram0))
        = map of_nat [0..<MAXNODES pool2] @ [0]
   \<and> \<not> out_of_nodes pool2 (snd (NewNode_times pool2 2 (MakeFreeList pool2 ram0)))"
proof -
  have h1: "0 < MAXNODES pool2" and h3: "FREENODE pool2 \<noteq> NULLNODE pool2"
    and h4: "2 \<le> MAXNODES pool2"
    by (simp_all add: pool2_def)
  have h2: "pool_fits pool2" by (rule pool2_fits)
  show ?thesis using h1 h2 h3 h4 NewNode_never_out_of_nodes [OF h1 h2 h3 h4, of ram0] by blast
qed

text \<open>
  Claim C6. When the head node of the free list does not carry \<open>NULLNODE\<close>,
  \<open>NewNode\<close> returns the head of the free list, moves the head to the \<open>next\<close> field
  of the returned node, and leaves the record of the returned node and every other byte
  of the serial RAM as they were.
\<close>

theorem NewNode_pops_head:
  assumes "DISPLAYNODE.subpage (GetNode (sFreeList s) s) \<noteq> NULLNODE h"
  shows "fst (NewNode h s) = sFreeList s
       \<and> sFreeList (snd (NewNode h s)) = nextnode (GetNode (sFreeList s) s)
       \<and> GetNode (fst (NewNode h s)) (snd (NewNode h s)) = GetNode (fst (NewNode h s)) s
       \<and> spiram (snd (NewNode h s)) = spiram s"
  using assms by (simp add: NewNode_def Let_def)

theorem NewNode_pops_head_witness:
  "DISPLAYNODE.subpage (GetNode (sFreeList ram_fresh) ram_fresh) \<noteq> NULLNODE pool2
   \<and> fst (NewNode pool2 ram_fresh) = sFreeList ram_fresh
   \<and> sFreeList (snd (NewNode pool2 ram_fresh)) = nextnode (GetNode (sFreeList ram_fresh) ram_fresh)
   \<and> GetNode (fst (NewNode pool2 ram_fresh)) (snd (NewNode pool2 ram_fresh))
        = GetNode (fst (NewNode pool2 ram_fresh)) ram_fresh
   \<and> spiram (snd (NewNode pool2 ram_fresh)) = spiram ram_fresh"
proof -
  have h1: "DISPLAYNODE.subpage (GetNode (sFreeList ram_fresh) ram_fresh) \<noteq> NULLNODE pool2"
    by (simp add: ram_fresh_sFreeList ram_fresh_node0 pool2_def)
  show ?thesis using h1 NewNode_pops_head [OF h1] by blast
qed

text \<open>
  Claim C10. When the head node of the free list carries \<open>NULLNODE\<close>, \<open>NewNode\<close>
  returns the head of the free list and changes nothing; the result is only a node
  pointer, so any number of calls in a row return the same node pointer.
\<close>

theorem NewNode_exhausted_returns_head:
  assumes "out_of_nodes h s"
  shows "NewNode h s = (sFreeList s, s) \<and> NewNode_times h k s = (replicate k (sFreeList s), s)"
proof -
  have a: "NewNode h s = (sFreeList s, s)"
    using assms by (simp add: NewNode_def Let_def out_of_nodes_def)
  have "NewNode_times h k s = (replicate k (sFreeList s), s)"
    by (induction k) (simp_all add: a)
  with a show ?thesis by simp
qed

theorem NewNode_exhausted_returns_head_witness:
  "out_of_nodes pool2 ram_end \<and> NewNode pool2 ram_end = (sFreeList ram_end, ram_end)
   \<and> NewNode_times pool2 3 ram_end = (replicate 3 (sFreeList ram_end), ram_end)"
proof -
  have h1: "out_of_nodes pool2 ram_end"
    using GetNode_SetNode_same [OF pool2_fits in_pool2_0]
    by (simp add: out_of_nodes_def ram_end_def ram0_def)
  show ?thesis using h1 NewNode_exhausted_returns_head [OF h1, of 3] by blast
qed


subsection \<open>Claims about the directory and the insertion of a page\<close>

text \<open>
  Claim C8 (directory bounds). Magazines 1 and 9 address the cells of magazine index 0,
  magazines 8 and 16 those of magazine index 7. For every magazine and page the cell
  address is that of magazine index \<open>(mag - 1) AND 7\<close>, which is below 8, and the cell lies
  inside the PageArray of 8 by 256 node pointers.
\<close>

theorem cellAddress_in_PageArray:
  "cellAddress 1 pg = of_nat ((0 * 256 + unat pg) * sizeof_NODEPTR)
   \<and> cellAddress 9 pg = cellAddress 1 pg
   \<and> cellAddress 8 pg = of_nat ((7 * 256 + unat pg) * sizeof_NODEPTR)
   \<and> cellAddress 16 pg = cellAddress 8 pg
   \<and> Lookup 9 pg s = Lookup 1 pg s \<and> Lookup 16 pg s = Lookup 8 pg s
   \<and> unat (cellAddress mg pg) = (unat ((mg - 1) AND 7) * 256 + unat pg) * sizeof_NODEPTR
   \<and> unat ((mg - 1) AND 7) < 8
   \<and> unat (cellAddress mg pg) + sizeof_NODEPTR \<le> PAGEARRAYSIZE"
proof -
  have a: "cellAddress m pg = of_nat ((unat ((m - 1) AND 7) * 256 + unat pg) * sizeof_NODEPTR)" for m
  proof -
    have "cellAddress m pg = of_nat (unat (cellAddress m pg))" by simp
    then show ?thesis by (simp only: unat_cell sizeof_NODEPTR_def)
  qed
  have b: "cellAddress 9 pg = cellAddress 1 pg" "cellAddress 16 pg = cellAddress 8 pg"
    by (simp_all add: cellAddress_def)
  have c: "unat ((mg - 1) AND 7) < 8" using mag_le [of mg] by simp
  show ?thesis
    using a [of 1] a [of 8] b c unat_cell [of mg pg] cell_bound [of mg pg]
    by (simp add: Lookup_def sizeof_NODEPTR_def)
qed

text \<open>
  Claim C5 (last write wins), as amended. The claim as stated fails when \<open>NewNode\<close>
  hands out a slot number outside the pool: the byte address of such a slot wraps around
  into the PageArray, and the record written there overwrites the directory cell (the
  counterexample below: after three pages in a pool of two nodes the free list points to
  \<open>NULLPTR\<close>, slot \<open>0xFFFF\<close> is the bytes 4091 to 4095, and two insertions of page 255
  of magazine 8 leave a cell that refers to slot 255 with page index 0). The amended
  claim: if the pool fits the RAM and the node that \<open>NewNode\<close> hands out in the second
  call lies in the pool, then after two calls of \<open>LinkPage\<close> for the same magazine and
  page with different page indexes the directory cell refers to a node whose
  \<open>pageindex\<close> is that of the second call and not that of the first. The second call
  takes its node from \<open>NewNode\<close> and writes it into the cell, whatever the cell held
  before.
\<close>

theorem LinkPage_last_write_wins:
  assumes "ix1 \<noteq> ix2" and "pool_fits h"
    and "in_pool h (sFreeList (LinkPage h mg pg sp1 ix1 s))"
  shows "pageindex (GetNode (Lookup mg pg (LinkPage h mg pg sp2 ix2 (LinkPage h mg pg sp1 ix1 s)))
             (LinkPage h mg pg sp2 ix2 (LinkPage h mg pg sp1 ix1 s))) = ix2
       \<and> pageindex (GetNode (Lookup mg pg (LinkPage h mg pg sp2 ix2 (LinkPage h mg pg sp1 ix1 s)))
             (LinkPage h mg pg sp2 ix2 (LinkPage h mg pg sp1 ix1 s))) \<noteq> ix1
       \<and> Lookup mg pg (LinkPage h mg pg sp2 ix2 (LinkPage h mg pg sp1 ix1 s))
           = fst (NewNode h (LinkPage h mg pg sp1 ix1 s))"
proof -
  let ?s1 = "LinkPage h mg pg sp1 ix1 s"
  let ?s2 = "LinkPage h mg pg sp2 ix2 ?s1"
  have a: "Lookup mg pg ?s2 = sFreeList ?s1"
    unfolding Lookup_def using assms(2,3) by (rule LinkPage_GetNodePtr_same)
  have b: "GetNode (sFreeList ?s1) ?s2 = \<lparr>pageindex = ix2, nextnode = NULLPTR h, subpage = sp2\<rparr>"
    using assms(2,3) by (rule LinkPage_GetNode_new)
  show ?thesis using assms(1) by (simp add: a b fst_NewNode)
qed

theorem LinkPage_last_write_wins_witness:
  "(0::16 word) \<noteq> 1 \<and> pool_fits pool2
   \<and> in_pool pool2 (sFreeList (LinkPage pool2 1 0 0 0 ram_fresh))
   \<and> pageindex (GetNode (Lookup 1 0 (LinkPage pool2 1 0 1 1 (LinkPage pool2 1 0 0 0 ram_fresh)))
             (LinkPage pool2 1 0 1 1 (LinkPage pool2 1 0 0 0 ram_fresh))) = 1
   \<and> pageindex (GetNode (Lookup 1 0 (LinkPage pool2 1 0 1 1 (LinkPage pool2 1 0 0 0 ram_fresh)))
             (LinkPage pool2 1 0 1 1 (LinkPage pool2 1 0 0 0 ram_fresh))) \<noteq> 0
   \<and> Lookup 1 0 (LinkPage pool2 1 0 1 1 (LinkPage pool2 1 0 0 0 ram_fresh))
           = fst (NewNode pool2 (LinkPage pool2 1 0 0 0 ram_fresh))"
proof -
  have h1: "(0::16 word) \<noteq> 1" by simp
  have h2: "pool_fits pool2" by (rule pool2_fits)
  have h3: "in_pool pool2 (sFreeList (LinkPage pool2 1 0 0 0 ram_fresh))"
    using ram_one_sFreeList in_pool2_1 by (simp add: ram_one_def)
  show ?thesis
    using h1 h2 h3 LinkPage_last_write_wins [OF h1 h2 h3, of 1] by blast
qed

theorem LinkPage_last_write_wins_counterexample:
  "ram_four = LinkPage pool2 8 255 0 3 ram_three
   \<and> ram_five = LinkPage pool2 8 255 0 4 ram_four
   \<and> Lookup 8 255 ram_five = 0xFF
   \<and> pageindex (GetNode (Lookup 8 255 ram_five) ram_five) = 0"
  by (simp add: ram_five_Lookup ram_five_node_255) (simp add: ram_four_def ram_five_def)

text \<open>
  Claim C9 (frame of \<open>LinkPage\<close>), as amended. The claim as stated fails when the node
  that the cell referred to is the node that \<open>NewNode\<close> hands out: its record is then
  rewritten (the counterexample below). The amended claim: when the pool fits the RAM, the
  cell of the magazine and page holds a node pointer that is not \<open>NULLPTR\<close>, that
  pointer and the head of the free list are two different nodes of the pool, then
  \<open>LinkPage\<close> leaves the record of the node that the cell referred to unchanged; the
  free list pointer changes as in \<open>NewNode\<close> alone; the node returned by \<open>NewNode\<close>
  holds the new record and the cell refers to it; and every byte of the serial RAM outside
  the two bytes of the cell and the five bytes of that record is unchanged.
\<close>

theorem LinkPage_frame:
  assumes "Lookup mg pg s \<noteq> NULLPTR h" and "Lookup mg pg s \<noteq> sFreeList s"
    and "pool_fits h" and "in_pool h (sFreeList s)" and "in_pool h (Lookup mg pg s)"
    and "b \<notin> {cellAddress mg pg, cellAddress mg pg + 1}"
    and "b \<notin> {slot_address (fst (NewNode h s)), slot_address (fst (NewNode h s)) + 1,
               slot_address (fst (NewNode h s)) + 2, slot_address (fst (NewNode h s)) + 3,
               slot_address (fst (NewNode h s)) + 4}"
  shows "GetNode (Lookup mg pg s) (LinkPage h mg pg sp ix s) = GetNode (Lookup mg pg s) s
       \<and> sFreeList (LinkPage h mg pg sp ix s) = sFreeList (snd (NewNode h s))
       \<and> sDisplayList (LinkPage h mg pg sp ix s) = sDisplayList s
       \<and> GetNode (fst (NewNode h s)) (LinkPage h mg pg sp ix s) =
            \<lparr>pageindex = ix, nextnode = NULLPTR h, subpage = sp\<rparr>
       \<and> Lookup mg pg (LinkPage h mg pg sp ix s) = fst (NewNode h s)
       \<and> spiram (LinkPage h mg pg sp ix s) b = spiram s b"
proof -
  have a: "GetNode (Lookup mg pg s) (LinkPage h mg pg sp ix s) = GetNode (Lookup mg pg s) s"
    using assms(3,4,5) assms(2) [symmetric] by (rule LinkPage_GetNode_other)
  have c: "GetNode (fst (NewNode h s)) (LinkPage h mg pg sp ix s) =
            \<lparr>pageindex = ix, nextnode = NULLPTR h, subpage = sp\<rparr>"
    unfolding fst_NewNode using assms(3,4) by (rule LinkPage_GetNode_new)
  have d: "Lookup mg pg (LinkPage h mg pg sp ix s) = fst (NewNode h s)"
    unfolding fst_NewNode Lookup_def using assms(3,4) by (rule LinkPage_GetNodePtr_same)
  have e: "spiram (LinkPage h mg pg sp ix s) b = spiram s b"
  proof (rule LinkPage_spiram_frame)
    show "\<forall>k<2. b \<noteq> cellAddress mg pg + of_nat k"
    proof (intro allI impI)
      fix k :: nat assume "k < 2"
      then consider "k = 0" | "k = 1" by arith
      then show "b \<noteq> cellAddress mg pg + of_nat k"
        using assms(6) by cases simp_all
    qed
    show "\<forall>k<5. b \<noteq> slot_address (sFreeList s) + of_nat k"
    proof (intro allI impI)
      fix k :: nat assume "k < 5"
      then consider "k = 0" | "k = 1" | "k = 2" | "k = 3" | "k = 4" by arith
      then show "b \<noteq> slot_address (sFreeList s) + of_nat k"
        using assms(7) unfolding fst_NewNode by cases simp_all
    qed
  qed
  show ?thesis using a c d e by (simp add: LinkPage_sFreeList LinkPage_sDisplayList)
qed

theorem LinkPage_frame_witness:
  "Lookup 1 0 ram_one \<noteq> NULLPTR pool2 \<and> Lookup 1 0 ram_one \<noteq> sFreeList ram_one
   \<and> pool_fits pool2 \<and> in_pool pool2 (sFreeList ram_one) \<and> in_pool pool2 (Lookup 1 0 ram_one)
   \<and> GetNode (Lookup 1 0 ram_one) (LinkPage pool2 1 0 1 1 ram_one) = GetNode (Lookup 1 0 ram_one) ram_one
   \<and> sFreeList (LinkPage pool2 1 0 1 1 ram_one) = sFreeList (snd (NewNode pool2 ram_one))
   \<and> sDisplayList (LinkPage pool2 1 0 1 1 ram_one) = sDisplayList ram_one
   \<and> GetNode (fst (NewNode pool2 ram_one)) (LinkPage pool2 1 0 1 1 ram_one) =
        \<lparr>pageindex = 1, nextnode = NULLPTR pool2, subpage = 1\<rparr>
   \<and> Lookup 1 0 (LinkPage pool2 1 0 1 1 ram_one) = fst (NewNode pool2 ram_one)
   \<and> spiram (LinkPage pool2 1 0 1 1 ram_one) 4096 = spiram ram_one 4096"
proof -
  have h1: "Lookup 1 0 ram_one \<noteq> NULLPTR pool2"
    by (simp add: ram_one_Lookup pool2_def)
  have h2: "Lookup 1 0 ram_one \<noteq> sFreeList ram_one"
    by (simp add: ram_one_Lookup ram_one_sFreeList)
  have h3: "pool_fits pool2" by (rule pool2_fits)
  have h4: "in_pool pool2 (sFreeList ram_one)"
    by (simp add: ram_one_sFreeList in_pool2_1)
  have h5: "in_pool pool2 (Lookup 1 0 ram_one)"
    by (simp add: ram_one_Lookup in_pool2_0)
  have h6: "(4096 :: 16 word) \<notin> {cellAddress 1 0, cellAddress 1 0 + 1}"
    by (simp add: cell_1_0)
  have h7: "(4096 :: 16 word) \<notin>
      {slot_address (fst (NewNode pool2 ram_one)), slot_address (fst (NewNode pool2 ram_one)) + 1,
       slot_address (fst (NewNode pool2 ram_one)) + 2, slot_address (fst (NewNode pool2 ram_one)) + 3,
       slot_address (fst (NewNode pool2 ram_one)) + 4}"
    by (simp add: fst_NewNode ram_one_sFreeList slot_address_def sizeof_DISPLAYNODE_def
        PAGEARRAYSIZE_def sizeof_NODEPTR_def)
  show ?thesis
    using h1 h2 h3 h4 h5 LinkPage_frame [OF h1 h2 h3 h4 h5 h6 h7, of 1 1] by blast
qed

theorem LinkPage_frame_counterexample:
  "Lookup 1 0 ram_two \<noteq> NULLPTR pool2
   \<and> GetNode (Lookup 1 0 ram_two) (LinkPage pool2 1 0 0 2 ram_two)
       \<noteq> GetNode (Lookup 1 0 ram_two) ram_two"
proof -
  have "GetNode 0 (LinkPage pool2 1 0 0 2 ram_two) =
      \<lparr>pageindex = 2, nextnode = NULLPTR pool2, subpage = 0\<rparr>"
    using LinkPage_GetNode_new [OF pool2_fits, of ram_two 1 0 0 2] in_pool2_0
    by (simp add: ram_two_sFreeList)
  then show ?thesis
    by (simp add: ram_two_Lookup ram_two_node0 pool2_def)
qed

text \<open>
  Claim C4 (ownership). The claim fails on the code: after \<open>MakeFreeList\<close> and one
  \<open>LinkPage\<close>, with no node ever returned to the free list, the node that the directory
  cell refers to is still on the chain of the free list (following \<open>next\<close> from the
  head reaches it after \<open>MAXNODES - 1\<close> steps), and after \<open>MAXNODES - 1\<close> further calls
  of \<open>NewNode\<close> the next call of \<open>NewNode\<close> returns exactly the node that the
  directory cell refers to.
\<close>

theorem NewNode_returns_linked_node:
  assumes "0 < MAXNODES h" "pool_fits h" "FREENODE h \<noteq> NULLNODE h"
  shows "Lookup mg pg (snd (NewNode_times h (MAXNODES h - 1) (LinkPage h mg pg sp ix (MakeFreeList h s0))))
           = fst (NewNode h (snd (NewNode_times h (MAXNODES h - 1) (LinkPage h mg pg sp ix (MakeFreeList h s0)))))
       \<and> follow (LinkPage h mg pg sp ix (MakeFreeList h s0)) (MAXNODES h - 1)
            (sFreeList (LinkPage h mg pg sp ix (MakeFreeList h s0)))
           = Lookup mg pg (LinkPage h mg pg sp ix (MakeFreeList h s0))"
proof -
  have N: "MAXNODES h \<le> 65536" using pool_fits_bound [OF assms(2)] by simp
  let ?f = "MakeFreeList h s0"
  let ?s1 = "LinkPage h mg pg sp ix ?f"
  have p0: "in_pool h (sFreeList ?f)"
    using assms(1) by (simp add: MakeFreeList_sFreeList in_pool_def)
  have head: "sFreeList ?s1 = of_nat (1 mod MAXNODES h)"
    using assms MakeFreeList_nodes [OF assms(2,1), of s0]
    by (simp add: LinkPage_sFreeList NewNode_def Let_def MakeFreeList_sFreeList)
  have look: "Lookup mg pg ?s1 = 0"
    unfolding Lookup_def using LinkPage_GetNodePtr_same [OF assms(2) p0]
    by (simp add: MakeFreeList_sFreeList)
  have rest: "GetNode (of_nat i) ?s1 =
      \<lparr>pageindex = 0, nextnode = of_nat (Suc i mod MAXNODES h), subpage = FREENODE h\<rparr>"
    if "1 \<le> i" "i < MAXNODES h" for i
  proof -
    have "sFreeList ?f \<noteq> of_nat i"
      using that N of_nat_16_inj [of i 0] by (simp add: MakeFreeList_sFreeList)
    then have "GetNode (of_nat i) ?s1 = GetNode (of_nat i) ?f"
      using assms(2) p0 in_pool_of_nat [OF assms(2) that(2)] by (intro LinkPage_GetNode_other)
    then show ?thesis using that by (simp add: MakeFreeList_nodes [OF assms(2)])
  qed
  have walk: "NewNode_times h (MAXNODES h - 1) ?s1 =
      (map of_nat [1..<1 + (MAXNODES h - 1)], ?s1\<lparr>sFreeList := of_nat ((1 + (MAXNODES h - 1)) mod MAXNODES h)\<rparr>)"
    using assms(1) rest by (intro NewNode_times_ring [OF assms(3)]) (simp_all add: head)
  have s2: "snd (NewNode_times h (MAXNODES h - 1) ?s1) = ?s1\<lparr>sFreeList := 0\<rparr>"
    using assms(1) by (simp only: walk snd_conv) simp
  have a: "Lookup mg pg (snd (NewNode_times h (MAXNODES h - 1) ?s1))
           = fst (NewNode h (snd (NewNode_times h (MAXNODES h - 1) ?s1)))"
    unfolding s2 using look by (simp add: fst_NewNode Lookup_def)
  have fol: "follow ?s1 k (of_nat j) = of_nat ((j + k) mod MAXNODES h)"
    if "1 \<le> j" "j + k \<le> MAXNODES h" "j < MAXNODES h" for j k
    using that
  proof (induction k arbitrary: j)
    case 0
    then show ?case by simp
  next
    case (Suc k)
    have step: "follow ?s1 (Suc k) (of_nat j) = follow ?s1 k (of_nat (Suc j mod MAXNODES h))"
      using rest [of j] Suc.prems by (simp del: of_nat_Suc)
    show ?case
    proof (cases "Suc j = MAXNODES h")
      case True
      then have "k = 0" using Suc.prems by simp
      then show ?thesis using True step by (simp del: of_nat_Suc)
    next
      case False
      then have "Suc j < MAXNODES h" using Suc.prems by simp
      then show ?thesis using Suc.IH [of "Suc j"] Suc.prems step by (simp del: of_nat_Suc)
    qed
  qed
  have b: "follow ?s1 (MAXNODES h - 1) (sFreeList ?s1) = Lookup mg pg ?s1"
  proof (cases "MAXNODES h = 1")
    case True
    then show ?thesis using head look by simp
  next
    case False
    then have "1 < MAXNODES h" using assms(1) by simp
    then show ?thesis using fol [of 1 "MAXNODES h - 1"] head look by simp
  qed
  show ?thesis using a b by blast
qed

theorem NewNode_returns_linked_node_witness:
  "0 < MAXNODES pool2 \<and> pool_fits pool2 \<and> FREENODE pool2 \<noteq> NULLNODE pool2
   \<and> Lookup 1 0 (snd (NewNode_times pool2 (MAXNODES pool2 - 1) (LinkPage pool2 1 0 0 0 (MakeFreeList pool2 ram0))))
           = fst (NewNode pool2 (snd (NewNode_times pool2 (MAXNODES pool2 - 1) (LinkPage pool2 1 0 0 0 (MakeFreeList pool2 ram0)))))
       \<and> follow (LinkPage pool2 1 0 0 0 (MakeFreeList pool2 ram0)) (MAXNODES pool2 - 1)
            (sFreeList (LinkPage pool2 1 0 0 0 (MakeFreeList pool2 ram0)))
           = Lookup 1 0 (LinkPage pool2 1 0 0 0 (MakeFreeList pool2 ram0))"
proof -
  have h1: "0 < MAXNODES pool2" and h3: "FREENODE pool2 \<noteq> NULLNODE pool2"
    by (simp_all add: pool2_def)
  have h2: "pool_fits pool2" by (rule pool2_fits)
  show ?thesis using h1 h2 h3 NewNode_returns_linked_node [OF h1 h2 h3, of 1 0 0 0 ram0] by blast
qed


subsection \<open>Claims about building the display list\<close>

text \<open>
  Claim C2 (round-trip ingestion), as amended. The claim as stated fails when the index
  has more records than the pool has nodes: \<open>NewNode\<close> then hands out node 0 a second
  time and the page index of the first record is overwritten (the counterexample below
  has three records and a pool of two nodes). The amended claim: if the pool fits the RAM,
  the index has at most \<open>MAXNODES\<close> records, the header loop ends for every record, the
  magazines parsed are in 1..8 and the pairs of magazine and page are distinct, then
  \<open>InitDisplayList\<close> returns 0 and, for every position \<open>i\<close> of the index, the directory
  cell of the pair parsed from record \<open>i\<close> refers to a node whose \<open>pageindex\<close> is
  \<open>i\<close>.
\<close>

theorem InitDisplayList_round_trip:
  assumes idx: "pages_idx fs = Some recs" and all: "pages_all fs = Some g"
    and scan: "scan_pages P g recs p0 = Some ps"
    and chan: "\<forall>p\<in>set ps. 1 \<le> mag p \<and> mag p \<le> 8"
    and dist: "distinct (map (\<lambda>p. (mag p, page p)) ps)"
    and len: "length recs \<le> MAXNODES h"
    and N: "pool_fits h" and ne: "FREENODE h \<noteq> NULLNODE h"
    and i: "i < length recs"
  shows "\<exists>s'. InitDisplayList P h fs p0 s = Some (0, s')
           \<and> unat (pageindex (GetNode (Lookup (mag (ps ! i)) (page (ps ! i)) s') s')) = i"
proof -
  let ?s0 = "s\<lparr>sDisplayList := NULLPTR h, sFreeList := NULLPTR h\<rparr>"
  let ?s' = "link_pages h ps 0 (MakeFreeList h ?s0)"
  have lps: "length ps = length recs" using scan by (rule scan_pages_length)
  have run: "InitDisplayList P h fs p0 s = Some (0, ?s')"
    by (simp add: InitDisplayList_def ScanPageList_def Let_def idx all scan_loop_eq scan)
  have inj: "inj_on (\<lambda>p. cellAddress (mag p) (page p)) (set ps)"
  proof (rule inj_onI)
    fix x y assume x: "x \<in> set ps" and y: "y \<in> set ps"
      and e: "cellAddress (mag x) (page x) = cellAddress (mag y) (page y)"
    have "mag x = mag y \<and> page x = page y"
      using chan x y e by (intro cellAddress_inj) auto
    moreover have "inj_on (\<lambda>p. (mag p, page p)) (set ps)"
      using dist by (simp add: distinct_map)
    ultimately show "x = y" using x y by (auto dest: inj_onD)
  qed
  have dc: "distinct (map (\<lambda>p. cellAddress (mag p) (page p)) ps)"
    using dist inj by (simp add: distinct_map)
  have ik: "i < length ps" using i lps by simp
  have inv: "GetNodePtr (cellAddress (mag (ps ! i)) (page (ps ! i))) ?s' = of_nat i"
    "GetNode (of_nat i) ?s' =
       \<lparr>pageindex = 0 + of_nat i, nextnode = NULLPTR h, subpage = PAGE.subpage (ps ! i)\<rparr>"
    using link_pages_fresh [OF N ne _ dc, of 0 ?s0] len lps ik by simp_all
  have "i < 65536" using i len pool_fits_bound [OF N] by simp
  then have "unat (of_nat i :: 16 word) = i" by (simp add: unat_of_nat)
  then have "unat (pageindex (GetNode (Lookup (mag (ps ! i)) (page (ps ! i)) ?s') ?s')) = i"
    by (simp add: Lookup_def inv)
  with run show ?thesis by blast
qed

theorem InitDisplayList_round_trip_witness:
  "\<exists>s'. InitDisplayList digit_parser pool2 card2 page0 ram0 = Some (0, s')
       \<and> unat (pageindex (GetNode (Lookup (mag ([pA, pB] ! 1)) (page ([pA, pB] ! 1)) s') s')) = 1"
proof -
  have h1: "pages_idx card2 = Some recs2" and h2: "pages_all card2 = Some (read_line data2)"
    by (simp_all add: card2_def)
  have h4: "\<forall>p\<in>set [pA, pB]. 1 \<le> mag p \<and> mag p \<le> 8"
    and h5: "distinct (map (\<lambda>p. (mag p, page p)) [pA, pB])"
    by (simp_all add: pA_def pB_def)
  have h6: "length recs2 \<le> MAXNODES pool2"
    and h8: "FREENODE pool2 \<noteq> NULLNODE pool2"
    and h9: "1 < length recs2"
    by (simp_all add: pool2_def recs2_def)
  have h7: "pool_fits pool2" by (rule pool2_fits)
  show ?thesis
    by (rule InitDisplayList_round_trip [OF h1 h2 scan_card2 h4 h5 h6 h7 h8 h9])
qed

theorem InitDisplayList_round_trip_counterexample:
  "InitDisplayList digit_parser pool2 card3 page0 ram0 = Some (0, ram_three)
   \<and> scan_pages digit_parser (read_line data3) recs3 page0 = Some [pA, pB, pC]
   \<and> (mag pA, page pA) = (1, 0) \<and> (mag pB, page pB) = (1, 1) \<and> (mag pC, page pC) = (1, 2)
   \<and> pageindex (GetNode (Lookup 1 0 ram_three) ram_three) = 2"
  by (simp add: Init_card3 scan_card3 ram_three_Lookup ram_three_node0)
    (simp add: pA_def pB_def pC_def)

text \<open>
  Claim C7 (the header loop ends at the declared size of the record). The claim fails on
  the code: the loop tests only \<open>p->mag==9\<close> and never looks at \<open>pagesize\<close>. On
  \<open>card_late\<close> the loop started for record 0, which is the bytes 0 to 4, ends at
  position 10 with the header of record 1, and the run returns 0. On \<open>card_none\<close> the
  loop never ends, so \<open>InitDisplayList\<close> does not return.
\<close>

theorem header_loop_ignores_pagesize:
  "header_loop digit_parser (read_line data_late) (unat (seekptr (recs2 ! 0))) (page0\<lparr>mag := 9\<rparr>)
     = Some (pA, 10)
   \<and> unat (seekptr (recs2 ! 0)) + unat (pagesize (recs2 ! 0)) < 10
   \<and> InitDisplayList digit_parser pool2 card_late page0 ram0
       = Some (0, LinkPage pool2 1 0 0 1 ram_one)
   \<and> InitDisplayList digit_parser pool2 card_none page0 ram0 = None"
proof -
  have a: "header_loop digit_parser (read_line data_late) (unat (seekptr (recs2 ! 0))) (page0\<lparr>mag := 9\<rparr>)
     = Some (pA, 10)"
    using header_late by (simp add: recs2_def)
  have b: "unat (seekptr (recs2 ! 0)) + unat (pagesize (recs2 ! 0)) < 10"
    by (simp add: recs2_def)
  have c: "InitDisplayList digit_parser pool2 card_late page0 ram0
       = Some (0, LinkPage pool2 1 0 0 1 ram_one)"
    by (simp add: InitDisplayList_def ScanPageList_def Let_def card_late_def scan_loop_eq scan_late)
      (simp add: pA_def ram_one_def ram_fresh_def)
  have d: "InitDisplayList digit_parser pool2 card_none page0 ram0 = None"
    by (simp add: InitDisplayList_def ScanPageList_def Let_def card_none_def recs1_def header_none)
  show ?thesis using a b c d by blast
qed


end
